theory Spec2Isabelle
  imports Main "HOL-Library.Word" "HOL-Library.Signed_Division"
begin

unbundle bit_operations_syntax

section \<open>Java integers\<close>

text \<open>
  Java's \<open>int\<close> and \<open>long\<close> are 32-bit and 64-bit two's complement words: \<open>+\<close> and \<open>-\<close>
  wrap, \<open><s\<close> and \<open>\<le>s\<close> compare the signed values, \<open>drop_bit 1\<close> is \<open>>>> 1\<close>,
  \<open>push_bit 2\<close> is \<open><< 2\<close>. Java's \<open>/\<close> and \<open>%\<close> truncate towards zero; both divisors
  in the source are non-zero constants, so no ArithmeticException arises.
\<close>

type_synonym jint = "32 word"
type_synonym jlong = "64 word"

definition jdiv :: "'a::len word \<Rightarrow> 'a word \<Rightarrow> 'a word" where
  "jdiv a b = word_of_int (sint a sdiv sint b)"

definition jrem :: "'a::len word \<Rightarrow> 'a word \<Rightarrow> 'a word" where
  "jrem a b = word_of_int (sint a smod sint b)"

definition Math_min :: "jint \<Rightarrow> jint \<Rightarrow> jint" where
  "Math_min a b = (if a \<le>s b then a else b)"

text \<open>
  \<open>Integer.numberOfLeadingZeros\<close> (a JDK method the post calls): the number of zero bits
  above the highest one bit of the 32-bit representation, 32 for zero.
  \<open>leading_zeros i n\<close> counts them among the bits \<open>n - 1, n - 2, \<dots>, 0\<close>.
\<close>

fun leading_zeros :: "jint \<Rightarrow> nat \<Rightarrow> nat" where
  "leading_zeros i 0 = 0"
| "leading_zeros i (Suc n) = (if bit i n then 0 else Suc (leading_zeros i n))"

definition numberOfLeadingZeros :: "jint \<Rightarrow> jint" where
  "numberOfLeadingZeros i = of_nat (leading_zeros i 32)"

text \<open>\<open>a.length\<close> of an \<open>int[]\<close>, as the \<open>int\<close> Java reports (arrays hold fewer than \<open>2^31\<close> elements).\<close>

definition array_length :: "'a list \<Rightarrow> jint" where
  "array_length a = of_nat (length a)"

datatype exn =
    ArrayIndexOutOfBoundsException
  | IllegalArgumentException
  | NullPointerException

section \<open>CustomCC: the CountedCompleter of the post\<close>

text \<open>
  \<open>TARGET_LEAVES = Runtime.getRuntime().availableProcessors() << 2\<close>; the processor count
  is a parameter. \<open>MIN_SIZE_PER_LEAF = 10_000\<close>.
\<close>

definition TARGET_LEAVES :: "jint \<Rightarrow> jint" where
  "TARGET_LEAVES availableProcessors = push_bit 2 availableProcessors"

definition MIN_SIZE_PER_LEAF :: jint where
  "MIN_SIZE_PER_LEAF = 10000"

text \<open>
  \<open>computeInitialPending\<close>; its local variable
  \<^verbatim>\<open>int leaves = Math.min(TARGET_LEAVES, size / MIN_SIZE_PER_LEAF);\<close> is \<open>leaves\<close>.
\<close>

definition leaves :: "jint \<Rightarrow> jint \<Rightarrow> jint" where
  "leaves availableProcessors sz =
     Math_min (TARGET_LEAVES availableProcessors) (jdiv sz MIN_SIZE_PER_LEAF)"

definition computeInitialPending :: "jint \<Rightarrow> jint \<Rightarrow> jint" where
  "computeInitialPending availableProcessors sz =
     (if leaves availableProcessors sz = 0 then 0
      else 31 - numberOfLeadingZeros (leaves availableProcessors sz))"

text \<open>
  A task: its fields \<open>pos\<close>, \<open>size\<close>, \<open>res\<close> and \<open>subs\<close>, and the pending count given to
  \<open>super(parent, pending)\<close>, which is also \<open>subs.length\<close>. The array \<open>arr\<close> is final and
  shared, so it is passed beside the task. The constructor leaves \<open>res = 0\<close> and \<open>subs\<close>
  with \<open>pending\<close> empty slots; the fork loop of \<open>compute\<close> assigns every slot
  \<open>p = pending - 1, \<dots>, 0\<close> once, before any slot is read, so the model keeps \<open>subs\<close>
  empty until the loop builds it: slot \<open>p\<close> is element \<open>p\<close> of the list.
\<close>

datatype CustomCC =
  CustomCC (pos: jint) (size_cc: jint) (pending: nat) (res: jlong) (subs: "CustomCC list")

definition CustomCC_new :: "jint \<Rightarrow> jint \<Rightarrow> nat \<Rightarrow> CustomCC" where
  "CustomCC_new sz ps pend = CustomCC ps sz pend 0 []"

text \<open>
  The public constructor: \<open>this(null, arr, arr.length, 0, computeInitialPending(arr.length))\<close>.
  \<open>computeInitialPending\<close> returns a value in \<open>0..31\<close> (lemma \<open>computeInitialPending_range\<close>),
  read here as the array length it becomes.
\<close>

definition CustomCC_root :: "jint \<Rightarrow> jint list \<Rightarrow> CustomCC" where
  "CustomCC_root availableProcessors arr =
     CustomCC_new (array_length arr) 0
       (unat (computeInitialPending availableProcessors (array_length arr)))"

text \<open>
  The fork loop of \<open>compute\<close>:
  \<^verbatim>\<open>for (int p = subs.length - 1; p >= 0; --p) {
    size >>>= 1;
    CustomCC sub = new CustomCC(this, arr, size, pos + size, p);
    subs[p] = sub;
    sub.fork();
  }\<close>
  \<open>fork_loop n ps sz\<close> runs the iterations \<open>p = n - 1, \<dots>, 0\<close> from the current \<open>size\<close>
  and returns the final \<open>size\<close> with the slots \<open>subs[0..n-1]\<close>. The tasks are forked in
  the order of the iterations, which is \<open>rev\<close> of the slots (\<open>forked\<close>).
\<close>

fun fork_loop :: "nat \<Rightarrow> jint \<Rightarrow> jint \<Rightarrow> jint \<times> CustomCC list" where
  "fork_loop 0 ps sz = (sz, [])"
| "fork_loop (Suc p) ps sz =
     (let sz' = drop_bit 1 sz;
          sub = CustomCC_new sz' (ps + sz') p;
          (szf, below) = fork_loop p ps sz'
      in (szf, below @ [sub]))"

definition forked :: "nat \<Rightarrow> jint \<Rightarrow> jint \<Rightarrow> CustomCC list" where
  "forked n ps sz = rev (snd (fork_loop n ps sz))"

text \<open>
  The leaf loop of \<open>compute\<close>:
  \<^verbatim>\<open>int[] a; int i, hi;
  if ((a = arr).length >= (hi = pos + size) && (i = pos) >= 0 && i < hi) {
    do {
      int e = a[i];
      if (e < 150) res += fnv(e) % 5;
    } while (++i < hi);
  }\<close>
  \<open>fnv\<close> is not part of the post; it is a parameter, taken with its value widened to
  \<open>long\<close> (widening commutes with \<open>% 5\<close>). An array read outside \<open>0..length-1\<close> raises.
\<close>

definition leaf_guard :: "jint list \<Rightarrow> jint \<Rightarrow> jint \<Rightarrow> bool" where
  "leaf_guard a ps sz = (ps + sz \<le>s array_length a \<and> 0 \<le>s ps \<and> ps <s ps + sz)"

definition leaf_step :: "(jint \<Rightarrow> jlong) \<Rightarrow> jint \<Rightarrow> jlong \<Rightarrow> jlong" where
  "leaf_step fnv e r = (if e <s 150 then r + jrem (fnv e) 5 else r)"

function leaf_loop :: "(jint \<Rightarrow> jlong) \<Rightarrow> jint list \<Rightarrow> jint \<Rightarrow> jint \<Rightarrow> jlong \<Rightarrow> exn + jlong" where
  "leaf_loop fnv a i hi r =
     (if 0 \<le>s i \<and> unat i < length a then
        (let e = a ! unat i;
             r' = leaf_step fnv e r;
             i' = i + 1
         in if i' <s hi then leaf_loop fnv a i' hi r' else Inr r')
      else Inl ArrayIndexOutOfBoundsException)"
  by pat_completeness auto
termination leaf_loop
proof (relation "measure (\<lambda>(fnv, a, i, hi, r). if 0 \<le>s i then nat (2147483648 - sint i) else 0)",
    goal_cases)
  case 1
  show ?case by simp
next
  case (2 fnv a i hi r e r' i')
  have lt: "sint i < 2 ^ (LENGTH(32) - 1)" by (rule sint_lt)
  show ?case
  proof (cases "sint i = 2147483647")
    case True
    then have "sint i = sint (2147483647 :: jint)" by simp
    then have "i = 2147483647" by (rule signed_word_eqI)
    then show ?thesis using 2 by (simp add: word_sle_eq)
  next
    case False
    have "- (2 ^ (LENGTH(32) - 1)) \<le> sint i" by (rule sint_ge)
    then have "sint (i + 1) = sint i + 1" using False lt
      by (simp add: sint_word_add signed_take_bit_int_eq_self)
    then show ?thesis using 2 False lt by (simp add: word_sle_eq)
  qed
qed

definition leaf :: "(jint \<Rightarrow> jlong) \<Rightarrow> jint list \<Rightarrow> jint \<Rightarrow> jint \<Rightarrow> jlong \<Rightarrow> exn + jlong" where
  "leaf fnv a ps sz r = (if leaf_guard a ps sz then leaf_loop fnv a ps (ps + sz) r else Inr r)"

text \<open>
  \<open>compute\<close> of one task: the fork loop, then the leaf loop over what is left of the
  task's own range. The result is the task as \<open>compute\<close> leaves it at \<open>tryComplete()\<close>:
  \<open>size\<close> halved once per fork, \<open>subs\<close> assigned, \<open>res\<close> the leaf's sum.
\<close>

definition compute :: "(jint \<Rightarrow> jlong) \<Rightarrow> jint list \<Rightarrow> CustomCC \<Rightarrow> exn + CustomCC" where
  "compute fnv arr t =
     (let (sz, ss) = fork_loop (pending t) (pos t) (size_cc t)
      in case leaf fnv arr (pos t) sz (res t) of
           Inl e \<Rightarrow> Inl e
         | Inr r \<Rightarrow> Inr (CustomCC (pos t) sz (pending t) r ss))"

text \<open>\<open>onCompletion\<close>: \<^verbatim>\<open>for (CustomCC sub : subs) res += sub.res;\<close>\<close>

definition onCompletion :: "CustomCC \<Rightarrow> CustomCC" where
  "onCompletion t =
     CustomCC (pos t) (size_cc t) (pending t) (fold (\<lambda>sub r. r + res sub) (subs t) (res t)) (subs t)"

text \<open>
  A task run to completion. \<open>CountedCompleter\<close> calls \<open>onCompletion\<close> of a task when its
  pending count reaches zero, which is after its own \<open>tryComplete()\<close> and the completion of
  every task in \<open>subs\<close>; a task writes only its own fields, and \<open>onCompletion\<close> reads the
  \<open>res\<close> of completed tasks only, so the result does not depend on the schedule. An
  exception in any \<open>compute\<close> completes the whole tree exceptionally.
\<close>

fun all_completed :: "(exn + CustomCC) list \<Rightarrow> exn + CustomCC list" where
  "all_completed [] = Inr []"
| "all_completed (Inl e # rs) = Inl e"
| "all_completed (Inr t # rs) =
     (case all_completed rs of Inl e \<Rightarrow> Inl e | Inr ts \<Rightarrow> Inr (t # ts))"

function run :: "(jint \<Rightarrow> jlong) \<Rightarrow> jint list \<Rightarrow> CustomCC \<Rightarrow> exn + CustomCC" where
  "run fnv arr t =
     (case compute fnv arr t of
        Inl e \<Rightarrow> Inl e
      | Inr t1 \<Rightarrow>
          (case all_completed (map (run fnv arr) (subs t1)) of
             Inl e \<Rightarrow> Inl e
           | Inr done \<Rightarrow>
               Inr (onCompletion (CustomCC (pos t1) (size_cc t1) (pending t1) (res t1) done))))"
  by pat_completeness auto
termination
proof (relation "measure (\<lambda>(fnv, arr, t). pending t)", goal_cases)
  case 1
  show ?case by simp
next
  case (2 fnv arr t t1 x)
  have below: "\<forall>s \<in> set (snd (fork_loop n ps sz)). pending s < n" for n ps sz
  proof (induction n arbitrary: sz)
    case 0
    show ?case by simp
  next
    case (Suc n)
    show ?case using Suc [of "drop_bit 1 sz"]
      by (auto simp: CustomCC_new_def Let_def less_Suc_eq split: prod.splits)
  qed
  from 2 have "x \<in> set (snd (fork_loop (pending t) (pos t) (size_cc t)))"
    by (auto simp: compute_def split: prod.splits sum.splits)
  with below show ?case by auto
qed

declare run.simps [simp del]

text \<open>\<open>new CustomCC(arr).invoke()\<close>: the root run to completion, then \<open>getRawResult()\<close>.\<close>

definition CustomCC_invoke :: "(jint \<Rightarrow> jlong) \<Rightarrow> jint \<Rightarrow> jint list \<Rightarrow> exn + jlong" where
  "CustomCC_invoke fnv availableProcessors arr =
     (case run fnv arr (CustomCC_root availableProcessors arr) of
        Inl e \<Rightarrow> Inl e
      | Inr t \<Rightarrow> Inr (res t))"

text \<open>
  The sequential loop the post starts from:
  \<^verbatim>\<open>long res = 0;
  for (int i : array)
    if (i < 150)
      res += fnv(i) % 5;\<close>
\<close>

definition sequential :: "(jint \<Rightarrow> jlong) \<Rightarrow> jint list \<Rightarrow> jlong" where
  "sequential fnv array = fold (leaf_step fnv) array 0"

text \<open>The same loop over the \<open>n\<close> elements from index \<open>q\<close> on.\<close>

definition range_sum :: "(jint \<Rightarrow> jlong) \<Rightarrow> jint list \<Rightarrow> nat \<Rightarrow> nat \<Rightarrow> jlong" where
  "range_sum fnv arr q n = fold (leaf_step fnv) (take n (drop q arr)) 0"

text \<open>
  The ranges \<open>(pos, size)\<close> the leaf loops of a task tree run over: the task's own range
  after its fork loop, then those of \<open>subs[0], subs[1], \<dots>\<close>.
\<close>

function leaf_ranges :: "CustomCC \<Rightarrow> (jint \<times> jint) list" where
  "leaf_ranges t =
     (let (sz, ss) = fork_loop (pending t) (pos t) (size_cc t)
      in (pos t, sz) # concat (map leaf_ranges ss))"
  by pat_completeness auto
termination
proof (relation "measure pending", goal_cases)
  case 1
  show ?case by simp
next
  case (2 t x sz ss sub)
  have below: "\<forall>s \<in> set (snd (fork_loop n ps sz)). pending s < n" for n ps sz
  proof (induction n arbitrary: sz)
    case 0
    show ?case by simp
  next
    case (Suc n)
    show ?case using Suc [of "drop_bit 1 sz"]
      by (auto simp: CustomCC_new_def Let_def less_Suc_eq split: prod.splits)
  qed
  from 2 have "sub \<in> set (snd (fork_loop (pending t) (pos t) (size_cc t)))"
    by (metis snd_conv)
  with below show ?case by auto
qed

declare leaf_ranges.simps [simp del]

section \<open>Collector pre-sizing: the stream patch\<close>

text \<open>
  A \<open>Collector<T, A, R>\<close> as \<open>Collectors.CollectorImpl\<close> stores it. A \<open>Supplier<A>\<close> is the
  result of its \<open>get()\<close>, an \<open>IntFunction<A>\<close> a function of the \<open>int\<close> capacity; both may
  throw. A \<open>BiConsumer<A, T>\<close> updates the container, so it returns the updated one.
  Containers are values: two calls that build equal containers are equal.
\<close>

datatype Characteristics = CONCURRENT | UNORDERED | IDENTITY_FINISH

record ('t, 'a, 'r) Collector =
  sizedSupplier :: "jint \<Rightarrow> exn + 'a"
  supplier :: "unit \<Rightarrow> exn + 'a"
  accumulator :: "'a \<Rightarrow> 't \<Rightarrow> 'a"
  combiner :: "'a \<Rightarrow> 'a \<Rightarrow> 'a"
  finisher :: "'a \<Rightarrow> 'r"
  characteristics :: "Characteristics set"

text \<open>
  The default method of the interface, for an implementation that does not override it:
  \<^verbatim>\<open>default IntFunction<A> sizedSupplier() { return ignored -> supplier().get(); }\<close>
\<close>

definition Collector_sizedSupplier_default :: "(unit \<Rightarrow> exn + 'a) \<Rightarrow> jint \<Rightarrow> exn + 'a" where
  "Collector_sizedSupplier_default supplier_m = (\<lambda>ignored. supplier_m ())"

text \<open>The constructors of \<open>CollectorImpl\<close>: the full one, and the two that delegate to it.\<close>

definition CollectorImpl ::
  "(jint \<Rightarrow> exn + 'a) \<Rightarrow> (unit \<Rightarrow> exn + 'a) \<Rightarrow> ('a \<Rightarrow> 't \<Rightarrow> 'a) \<Rightarrow> ('a \<Rightarrow> 'a \<Rightarrow> 'a) \<Rightarrow> ('a \<Rightarrow> 'r) \<Rightarrow>
   Characteristics set \<Rightarrow> ('t, 'a, 'r) Collector" where
  "CollectorImpl sizedSupplier_a supplier_a accumulator_a combiner_a finisher_a characteristics_a =
     \<lparr>sizedSupplier = sizedSupplier_a, supplier = supplier_a, accumulator = accumulator_a,
      combiner = combiner_a, finisher = finisher_a, characteristics = characteristics_a\<rparr>"

text \<open>\<^verbatim>\<open>this(sizedSupplier, supplier, accumulator, combiner, castingIdentity(), characteristics)\<close>\<close>

definition CollectorImpl_sized_identity ::
  "(jint \<Rightarrow> exn + 'a) \<Rightarrow> (unit \<Rightarrow> exn + 'a) \<Rightarrow> ('a \<Rightarrow> 't \<Rightarrow> 'a) \<Rightarrow> ('a \<Rightarrow> 'a \<Rightarrow> 'a) \<Rightarrow>
   Characteristics set \<Rightarrow> ('t, 'a, 'a) Collector" where
  "CollectorImpl_sized_identity sizedSupplier_a supplier_a accumulator_a combiner_a characteristics_a =
     CollectorImpl sizedSupplier_a supplier_a accumulator_a combiner_a (\<lambda>i. i) characteristics_a"

text \<open>\<^verbatim>\<open>this(ignored -> supplier.get(), supplier, accumulator, combiner, finisher, characteristics)\<close>\<close>

definition CollectorImpl_supplier ::
  "(unit \<Rightarrow> exn + 'a) \<Rightarrow> ('a \<Rightarrow> 't \<Rightarrow> 'a) \<Rightarrow> ('a \<Rightarrow> 'a \<Rightarrow> 'a) \<Rightarrow> ('a \<Rightarrow> 'r) \<Rightarrow>
   Characteristics set \<Rightarrow> ('t, 'a, 'r) Collector" where
  "CollectorImpl_supplier supplier_a accumulator_a combiner_a finisher_a characteristics_a =
     CollectorImpl (\<lambda>ignored. supplier_a ()) supplier_a accumulator_a combiner_a finisher_a
       characteristics_a"

text \<open>
  \<open>Collector.of\<close>. An argument that may be \<open>null\<close> is an \<open>option\<close>; every
  \<open>Objects.requireNonNull\<close> that fails throws the same NullPointerException. The varargs
  \<open>characteristics\<close> are a list. \<open>Collectors.CH_ID\<close> and \<open>Collectors.CH_NOID\<close> are constants
  outside the patch: the set holding \<open>IDENTITY_FINISH\<close> alone, and the empty set.
\<close>

definition CH_ID :: "Characteristics set" where
  "CH_ID = {IDENTITY_FINISH}"

definition CH_NOID :: "Characteristics set" where
  "CH_NOID = {}"

definition Collector_of_sized ::
  "(jint \<Rightarrow> exn + 'a) option \<Rightarrow> (unit \<Rightarrow> exn + 'a) option \<Rightarrow> ('a \<Rightarrow> 't \<Rightarrow> 'a) option \<Rightarrow>
   ('a \<Rightarrow> 'a \<Rightarrow> 'a) option \<Rightarrow> Characteristics list option \<Rightarrow> exn + ('t, 'a, 'a) Collector" where
  "Collector_of_sized sizedSupplier_a supplier_a accumulator_a combiner_a characteristics_a =
     (case (sizedSupplier_a, supplier_a, accumulator_a, combiner_a, characteristics_a) of
        (Some ss, Some s, Some a, Some c, Some chs) \<Rightarrow>
          Inr (CollectorImpl_sized_identity ss s a c
                (if length chs = 0 then CH_ID else insert IDENTITY_FINISH (set chs)))
      | _ \<Rightarrow> Inl NullPointerException)"

text \<open>
  The overload with a finisher. The patch shows its first four null checks and its last
  lines; the lines between the two hunks (the null checks of \<open>finisher\<close> and
  \<open>characteristics\<close>, and \<open>cs\<close> starting from \<open>CH_NOID\<close> before the characteristics are
  added) are the unchanged ones of the JDK.
\<close>

definition Collector_of_sized_finisher ::
  "(jint \<Rightarrow> exn + 'a) option \<Rightarrow> (unit \<Rightarrow> exn + 'a) option \<Rightarrow> ('a \<Rightarrow> 't \<Rightarrow> 'a) option \<Rightarrow>
   ('a \<Rightarrow> 'a \<Rightarrow> 'a) option \<Rightarrow> ('a \<Rightarrow> 'r) option \<Rightarrow> Characteristics list option \<Rightarrow>
   exn + ('t, 'a, 'r) Collector" where
  "Collector_of_sized_finisher sizedSupplier_a supplier_a accumulator_a combiner_a finisher_a
       characteristics_a =
     (case (sizedSupplier_a, supplier_a, accumulator_a, combiner_a, finisher_a, characteristics_a) of
        (Some ss, Some s, Some a, Some c, Some f, Some chs) \<Rightarrow>
          Inr (CollectorImpl ss s a c f (if 0 < length chs then set chs else CH_NOID))
      | _ \<Rightarrow> Inl NullPointerException)"

text \<open>
  The supplier-only overloads pass \<open>ignored -> supplier.get()\<close> as the sized supplier; the
  lambda is built before \<open>supplier\<close> is checked, and calling it on a \<open>null\<close> supplier throws.
\<close>

definition ignored_supplier_get :: "(unit \<Rightarrow> exn + 'a) option \<Rightarrow> jint \<Rightarrow> exn + 'a" where
  "ignored_supplier_get supplier_a =
     (\<lambda>ignored. case supplier_a of None \<Rightarrow> Inl NullPointerException | Some s \<Rightarrow> s ())"

definition Collector_of ::
  "(unit \<Rightarrow> exn + 'a) option \<Rightarrow> ('a \<Rightarrow> 't \<Rightarrow> 'a) option \<Rightarrow> ('a \<Rightarrow> 'a \<Rightarrow> 'a) option \<Rightarrow>
   Characteristics list option \<Rightarrow> exn + ('t, 'a, 'a) Collector" where
  "Collector_of supplier_a accumulator_a combiner_a characteristics_a =
     Collector_of_sized (Some (ignored_supplier_get supplier_a)) supplier_a accumulator_a combiner_a
       characteristics_a"

definition Collector_of_finisher ::
  "(unit \<Rightarrow> exn + 'a) option \<Rightarrow> ('a \<Rightarrow> 't \<Rightarrow> 'a) option \<Rightarrow> ('a \<Rightarrow> 'a \<Rightarrow> 'a) option \<Rightarrow>
   ('a \<Rightarrow> 'r) option \<Rightarrow> Characteristics list option \<Rightarrow> exn + ('t, 'a, 'r) Collector" where
  "Collector_of_finisher supplier_a accumulator_a combiner_a finisher_a characteristics_a =
     Collector_of_sized_finisher (Some (ignored_supplier_get supplier_a)) supplier_a accumulator_a
       combiner_a finisher_a characteristics_a"

text \<open>
  \<open>Collectors.toList()\<close> of the patch:
  \<^verbatim>\<open>new CollectorImpl<>((IntFunction<List<T>>) ArrayList::new,
                      (Supplier<List<T>>) ArrayList::new,
                      List::add,
                      (left, right) -> { left.addAll(right); return left; },
                      CH_ID)\<close>
  An \<open>ArrayList\<close> is modelled by its elements. \<open>new ArrayList(int initialCapacity)\<close>, a
  JDK constructor, throws IllegalArgumentException for a negative capacity.
\<close>

definition ArrayList_new :: "unit \<Rightarrow> exn + 't list" where
  "ArrayList_new u = Inr []"

definition ArrayList_new_capacity :: "jint \<Rightarrow> exn + 't list" where
  "ArrayList_new_capacity initialCapacity =
     (if initialCapacity <s 0 then Inl IllegalArgumentException else Inr [])"

definition toList :: "('t, 't list, 't list) Collector" where
  "toList =
     CollectorImpl_sized_identity ArrayList_new_capacity ArrayList_new (\<lambda>l t. l @ [t])
       (\<lambda>left right. left @ right) CH_ID"

text \<open>
  \<open>ReducingSink.begin\<close> in \<open>ReduceOps.makeRef\<close>:
  \<^verbatim>\<open>public void begin(long size) {
    if (size == -1)
      state = collector.supplier().get();
    else
      state = collector.sizedSupplier().apply((int) size);
  }\<close>
  The cast \<open>(int) size\<close> keeps the low 32 bits. The result is the new \<open>state\<close>.
\<close>

definition ReducingSink_begin :: "('t, 'a, 'r) Collector \<Rightarrow> jlong \<Rightarrow> exn + 'a" where
  "ReducingSink_begin collector sz =
     (if sz = - 1 then supplier collector ()
      else sizedSupplier collector (ucast sz))"

text \<open>
  \<open>UnorderedConcurrentCollectorOp.evaluateParallel\<close>:
  \<^verbatim>\<open>long size;
  if ((size = helper.exactOutputSizeIfKnown(spliterator)) != -1)
    res = collector.sizedSupplier().apply((int) size);
  else
    res = collector.supplier().get();
  new ForEachOps.ForEachTask<>(helper, spliterator, helper.wrapSink(this)).invoke();
  return res;\<close>
  \<open>sz\<close> is what \<open>exactOutputSizeIfKnown\<close> returned. The \<open>ForEachTask\<close> (outside the
  patch) calls \<open>accept\<close>, which is \<open>accumulator.accept(res, t)\<close>, once for each element of
  the stream; \<open>delivered\<close> lists the elements in the order in which these calls take effect
  on the shared container.
\<close>

definition UnorderedConcurrentCollectorOp_evaluateParallel ::
  "('t, 'a, 'r) Collector \<Rightarrow> jlong \<Rightarrow> 't list \<Rightarrow> exn + 'a" where
  "UnorderedConcurrentCollectorOp_evaluateParallel collector sz delivered =
     (case (if sz \<noteq> - 1 then sizedSupplier collector (ucast sz) else supplier collector ()) of
        Inl e \<Rightarrow> Inl e
      | Inr res0 \<Rightarrow> Inr (fold (\<lambda>t r. accumulator collector r t) delivered res0))"

text \<open>
  The terminal operation \<open>ReferencePipeline.collect(Collector)\<close> evaluates:
  \<^verbatim>\<open>if (isParallel()
      && (collector.characteristics().contains(Collector.Characteristics.CONCURRENT))
      && (!isOrdered() || collector.characteristics().contains(Collector.Characteristics.UNORDERED))) {
    container = evaluate(new UnorderedConcurrentCollectorOp<>(collector));
  }
  else {
    container = evaluate(ReduceOps.makeRef(collector));
  }\<close>
\<close>

datatype ('t, 'a, 'r) TerminalOp =
    UnorderedConcurrentCollectorOp "('t, 'a, 'r) Collector"
  | ReduceOps_makeRef "('t, 'a, 'r) Collector"

definition collect_terminalOp ::
  "bool \<Rightarrow> bool \<Rightarrow> ('t, 'a, 'r) Collector \<Rightarrow> ('t, 'a, 'r) TerminalOp" where
  "collect_terminalOp isParallel isOrdered collector =
     (if isParallel \<and> CONCURRENT \<in> characteristics collector
         \<and> (\<not> isOrdered \<or> UNORDERED \<in> characteristics collector)
      then UnorderedConcurrentCollectorOp collector
      else ReduceOps_makeRef collector)"

section \<open>Properties of CustomCC\<close>

subsection \<open>Leading zeros and the pending count\<close>

lemma nat_bit_top: "n < 2 ^ Suc k \<Longrightarrow> bit (n::nat) k \<longleftrightarrow> 2 ^ k \<le> n"
proof -
  assume a: "n < 2 ^ Suc k"
  then have "n div 2 ^ k < 2" by (simp add: less_mult_imp_div_less)
  then have "n div 2 ^ k = 0 \<or> n div 2 ^ k = 1" by arith
  moreover have "n div 2 ^ k = 0 \<longleftrightarrow> n < 2 ^ k" by (simp add: div_eq_0_iff)
  ultimately show ?thesis by (auto simp: bit_iff_odd)
qed

lemma word_bit_top: "unat (i::jint) < 2 ^ Suc k \<Longrightarrow> bit i k \<longleftrightarrow> 2 ^ k \<le> unat i"
  using nat_bit_top [of "unat i" k] by (simp add: bit_unsigned_iff)

lemma leading_zeros_spec:
  "unat i < 2 ^ k \<Longrightarrow>
   (i = 0 \<longrightarrow> leading_zeros i k = k) \<and>
   (i \<noteq> 0 \<longrightarrow> leading_zeros i k < k \<and> 2 ^ (k - 1 - leading_zeros i k) \<le> unat i
      \<and> unat i < 2 ^ (k - leading_zeros i k))"
proof (induction k)
  case 0
  then have "unat i = 0" by simp
  then have "i = 0" by (simp add: unat_eq_0)
  then show ?case by simp
next
  case (Suc k)
  show ?case
  proof (cases "bit i k")
    case True
    with Suc.prems have "2 ^ k \<le> unat i" by (simp add: word_bit_top)
    moreover from True have "i \<noteq> 0" by auto
    ultimately show ?thesis using True Suc.prems by simp
  next
    case False
    with Suc.prems have lt: "unat i < 2 ^ k" by (simp add: word_bit_top)
    from Suc.IH [OF lt] show ?thesis using False
      by (auto simp: Suc_diff_le)
  qed
qed

lemma unat_lt_32: "unat (i::jint) < 2 ^ 32"
  using unsigned_less [of i, where 'a = nat] by simp

lemma numberOfLeadingZeros_spec:
  "i \<noteq> 0 \<Longrightarrow> leading_zeros i 32 \<le> 31 \<and> 2 ^ (31 - leading_zeros i 32) \<le> unat i
      \<and> unat i < 2 ^ (32 - leading_zeros i 32)"
  using leading_zeros_spec [of i 32] unat_lt_32 [of i] by auto

lemma computeInitialPending_eq:
  "computeInitialPending procs sz =
    (if leaves procs sz = 0 then 0 else of_nat (31 - leading_zeros (leaves procs sz) 32))"
proof -
  have "31 - numberOfLeadingZeros i = of_nat (31 - leading_zeros i 32)" if "i \<noteq> 0" for i
  proof -
    from numberOfLeadingZeros_spec [OF that] have "leading_zeros i 32 \<le> 31" by simp
    then show ?thesis by (simp add: numberOfLeadingZeros_def)
  qed
  then show ?thesis by (simp add: computeInitialPending_def)
qed

lemma unat_computeInitialPending:
  "unat (computeInitialPending procs sz) =
    (if leaves procs sz = 0 then 0 else 31 - leading_zeros (leaves procs sz) 32)"
proof -
  have "unat (of_nat (31 - n) :: jint) = 31 - n" for n
    by (simp add: unat_of_nat)
  then show ?thesis by (simp add: computeInitialPending_eq)
qed

lemma computeInitialPending_range: "unat (computeInitialPending procs sz) \<le> 31"
  by (simp add: unat_computeInitialPending)

lemma sint_nonneg_unat: "0 \<le>s (w::jint) \<Longrightarrow> sint w = int (unat w)"
proof -
  assume "0 \<le>s w"
  then have ge: "0 \<le> sint w" by (simp add: word_sle_eq)
  have "sint w < 2 ^ (LENGTH(32) - 1)" by (rule sint_lt)
  then have "uint w = sint w" using ge by (simp add: uint_sint take_bit_int_eq_self)
  then show ?thesis by simp
qed

lemma sint_jdiv_nonneg:
  "0 \<le>s (sz::jint) \<Longrightarrow> sint (jdiv sz MIN_SIZE_PER_LEAF) = sint sz div 10000"
proof -
  assume "0 \<le>s sz"
  then have ge: "0 \<le> sint sz" by (simp add: word_sle_eq)
  have lt: "sint sz < 2 ^ (LENGTH(32) - 1)" by (rule sint_lt)
  have "sint sz sdiv 10000 = sint sz div 10000" using ge
    by (simp add: signed_divide_int_def sgn_if)
  moreover have "0 \<le> sint sz div 10000" using ge by simp
  moreover have "sint sz div 10000 \<le> sint sz" using ge by (simp add: div_le_dividend) 
  ultimately show ?thesis using lt
    by (simp add: jdiv_def MIN_SIZE_PER_LEAF_def sint_sbintrunc' signed_take_bit_int_eq_self)
qed

subsection \<open>The leaf loop is a fold over its range\<close>

lemma sint_array_length: "length a < 2 ^ 31 \<Longrightarrow> sint (array_length a) = int (length a)"
proof -
  assume a: "length a < 2 ^ 31"
  then have "int (length a) < 2 ^ 31" by (metis of_nat_less_iff of_nat_numeral of_nat_power)
  moreover have "array_length a = word_of_int (int (length a))" by (simp add: array_length_def)
  ultimately show ?thesis
    by (simp only: sint_sbintrunc') (simp add: signed_take_bit_int_eq_self)
qed

lemma sint_add_no_overflow:
  "0 \<le> sint (a::jint) \<Longrightarrow> 0 \<le> sint b \<Longrightarrow> sint a + sint b < 2 ^ 31 \<Longrightarrow> sint (a + b) = sint a + sint b"
  by (simp add: sint_word_add signed_take_bit_int_eq_self)

lemma take_drop_step:
  "k < length a \<Longrightarrow> 0 < n \<Longrightarrow> take n (drop k a) = a ! k # take (n - 1) (drop (Suc k) a)"
  by (cases n) (simp_all add: Cons_nth_drop_Suc [symmetric])

lemma leaf_loop_fold:
  "n = nat (sint hi - sint i) \<Longrightarrow> 0 \<le> sint i \<Longrightarrow> sint i < sint hi \<Longrightarrow> sint hi \<le> int (length a) \<Longrightarrow>
   leaf_loop fnv a i hi r =
     Inr (fold (leaf_step fnv) (take (nat (sint hi - sint i)) (drop (nat (sint i)) a)) r)"
proof (induction n arbitrary: i r)
  case 0
  then show ?case by simp
next
  case (Suc n)
  have hi_lt: "sint hi < 2 ^ (LENGTH(32) - 1)" by (rule sint_lt)
  have i_ge: "- (2 ^ (LENGTH(32) - 1)) \<le> sint i" by (rule sint_ge)
  have nonneg: "0 \<le>s i" using Suc.prems by (simp add: word_sle_eq)
  have un: "unat i = nat (sint i)" using sint_nonneg_unat [OF nonneg] by simp
  have inb: "unat i < length a" using Suc.prems un by linarith
  have succ: "sint (i + 1) = sint i + 1" using Suc.prems hi_lt i_ge
    by (simp add: sint_word_add signed_take_bit_int_eq_self)
  have split: "take (nat (sint hi - sint i)) (drop (nat (sint i)) a)
      = a ! unat i # take (nat (sint hi - sint i) - 1) (drop (Suc (nat (sint i))) a)"
    using take_drop_step [of "nat (sint i)" a "nat (sint hi - sint i)"] inb un Suc.prems by simp
  show ?case
  proof (cases "i + 1 <s hi")
    case True
    then have lt: "sint (i + 1) < sint hi" by (simp add: word_sless_alt)
    have n: "n = nat (sint hi - sint (i + 1))" using Suc.prems succ by simp
    have ih: "leaf_loop fnv a (i + 1) hi (leaf_step fnv (a ! unat i) r) =
        Inr (fold (leaf_step fnv) (take (nat (sint hi - sint (i + 1))) (drop (nat (sint (i + 1))) a))
          (leaf_step fnv (a ! unat i) r))"
      using Suc.IH [OF n _ lt] Suc.prems succ by simp
    have idx: "nat (sint hi - sint (i + 1)) = nat (sint hi - sint i) - 1"
      "nat (sint (i + 1)) = Suc (nat (sint i))"
      using succ Suc.prems by simp_all
    show ?thesis
      apply (subst leaf_loop.simps)
      using nonneg inb True ih idx split by (simp add: Let_def)
  next
    case False
    then have "sint hi \<le> sint (i + 1)" by (simp add: word_sless_alt)
    then have one: "nat (sint hi - sint i) = 1" using succ Suc.prems by simp
    show ?thesis
      apply (subst leaf_loop.simps)
      using nonneg inb False split one by (simp add: Let_def)
  qed
qed

lemma leaf_fold:
  assumes len: "length a < 2 ^ 31" and ps: "0 \<le>s ps" and sz: "0 \<le>s sz"
    and fit: "unat ps + unat sz \<le> length a"
  shows "leaf fnv a ps sz r = Inr (fold (leaf_step fnv) (take (unat sz) (drop (unat ps) a)) r)"
proof -
  have sps: "sint ps = int (unat ps)" using ps by (rule sint_nonneg_unat)
  have ssz: "sint sz = int (unat sz)" using sz by (rule sint_nonneg_unat)
  have lena: "sint (array_length a) = int (length a)" using len by (rule sint_array_length)
  have "int (length a) < 2 ^ 31" using len by (metis of_nat_less_iff of_nat_numeral of_nat_power)
  moreover have fit_int: "sint ps + sint sz \<le> int (length a)" using fit sps ssz by linarith
  ultimately have sum_lt: "sint ps + sint sz < 2 ^ 31" by linarith
  have ps_ge: "0 \<le> sint ps" using sps by linarith
  have hi: "sint (ps + sz) = sint ps + sint sz"
    using sint_add_no_overflow [of ps sz] sps ssz sum_lt by simp
  show ?thesis
  proof (cases "sz = 0")
    case True
    then show ?thesis by (simp add: leaf_def leaf_guard_def word_sless_alt)
  next
    case False
    then have "uint sz \<noteq> 0" by (simp add: uint_0_iff)
    moreover have "0 \<le> uint sz" by simp
    moreover have "sint sz = uint sz" by (simp add: ssz)
    ultimately have pos: "0 < sint sz" by linarith
    have guard: "leaf_guard a ps sz"
      using ps pos hi lena fit_int by (simp add: leaf_guard_def word_sle_eq word_sless_alt)
    have "leaf_loop fnv a ps (ps + sz) r =
        Inr (fold (leaf_step fnv) (take (nat (sint (ps + sz) - sint ps)) (drop (nat (sint ps)) a)) r)"
      by (rule leaf_loop_fold [OF refl]) (use ps_ge hi pos fit_int in simp_all)
    moreover have "nat (sint (ps + sz) - sint ps) = unat sz" "nat (sint ps) = unat ps"
      using hi sps ssz by simp_all
    ultimately show ?thesis using guard by (simp add: leaf_def)
  qed
qed

lemma run_leaf_task:
  assumes "leaf fnv arr ps sz r0 = Inr r"
  shows "run fnv arr (CustomCC ps sz 0 r0 []) = Inr (CustomCC ps sz 0 r [])"
  using assms by (subst run.simps) (simp add: compute_def onCompletion_def)

lemma fold_leaf_step_shift:
  "fold (leaf_step fnv) xs r = r + fold (leaf_step fnv) xs 0"
proof (induction xs arbitrary: r)
  case Nil
  show ?case by simp
next
  case (Cons x xs)
  have "fold (leaf_step fnv) xs (leaf_step fnv x r) = leaf_step fnv x r + fold (leaf_step fnv) xs 0"
    by (rule Cons.IH)
  moreover have "fold (leaf_step fnv) xs (leaf_step fnv x 0) = leaf_step fnv x 0 + fold (leaf_step fnv) xs 0"
    by (rule Cons.IH)
  moreover have "leaf_step fnv x r = r + leaf_step fnv x 0" by (simp add: leaf_step_def)
  ultimately show ?case by (simp add: add.assoc)
qed

lemma forked_Suc:
  "forked (Suc p) ps sz = CustomCC_new (drop_bit 1 sz) (ps + drop_bit 1 sz) p # forked p ps (drop_bit 1 sz)"
  by (simp add: forked_def Let_def split: prod.splits)

lemma fork_loop_size: "fst (fork_loop p ps sz) = drop_bit p sz"
proof (induction p arbitrary: sz)
  case 0
  show ?case by simp
next
  case (Suc p)
  have "fst (fork_loop (Suc p) ps sz) = fst (fork_loop p ps (drop_bit 1 sz))"
    by (simp add: Let_def split: prod.splits)
  then show ?case using Suc [of "drop_bit 1 sz"] by simp
qed

lemma forked_eq:
  "forked p ps sz =
     map (\<lambda>k. CustomCC_new (drop_bit (Suc k) sz) (ps + drop_bit (Suc k) sz) (p - Suc k)) [0..<p]"
proof (induction p arbitrary: sz)
  case 0
  show ?case by (simp add: forked_def)
next
  case (Suc p)
  have "map (\<lambda>k. CustomCC_new (drop_bit (Suc k) sz) (ps + drop_bit (Suc k) sz) (Suc p - Suc k)) [0..<Suc p]
      = CustomCC_new (drop_bit 1 sz) (ps + drop_bit 1 sz) p
        # map (\<lambda>k. CustomCC_new (drop_bit (Suc (Suc k)) sz) (ps + drop_bit (Suc (Suc k)) sz) (p - Suc k)) [0..<p]"
    by (simp add: upt_conv_Cons map_Suc_upt [symmetric] del: upt_Suc)
  then show ?case using Suc [of "drop_bit 1 sz"] by (simp add: forked_Suc)
qed

lemma unat_array_length: "length a < 2 ^ 31 \<Longrightarrow> unat (array_length a) = length a"
  by (simp add: array_length_def unat_of_nat)

lemma array_length_nonneg: "length a < 2 ^ 31 \<Longrightarrow> 0 \<le>s array_length a"
  using sint_array_length [of a] by (simp add: word_sle_eq)

lemma leaf_whole_array:
  assumes len: "length arr < 2 ^ 31"
  shows "leaf fnv arr 0 (array_length arr) 0 = Inr (sequential fnv arr)"
proof -
  have "leaf fnv arr 0 (array_length arr) 0 =
      Inr (fold (leaf_step fnv) (take (unat (array_length arr)) (drop (unat (0::jint)) arr)) 0)"
    by (rule leaf_fold [OF len _ array_length_nonneg [OF len]])
      (simp_all add: unat_array_length [OF len])
  then show ?thesis by (simp add: unat_array_length [OF len] sequential_def)
qed

lemma leaves_nonneg:
  assumes sz: "0 \<le>s sz" and tl: "0 \<le>s TARGET_LEAVES procs"
  shows "sint (leaves procs sz) = min (sint (TARGET_LEAVES procs)) (sint sz div 10000)"
    and "0 \<le> sint (leaves procs sz)"
proof -
  show m: "sint (leaves procs sz) = min (sint (TARGET_LEAVES procs)) (sint sz div 10000)"
    using sint_jdiv_nonneg [OF sz] by (simp add: leaves_def Math_min_def word_sle_eq min_def)
  have "0 \<le> sint sz" using sz by (simp add: word_sle_eq)
  then have "0 \<le> sint sz div 10000" by simp
  moreover have "0 \<le> sint (TARGET_LEAVES procs)" using tl by (simp add: word_sle_eq)
  ultimately show "0 \<le> sint (leaves procs sz)" using m by simp
qed

lemma computeInitialPending_log2:
  assumes nz: "leaves procs sz \<noteq> 0"
  shows "2 ^ unat (computeInitialPending procs sz) \<le> unat (leaves procs sz)"
    and "unat (leaves procs sz) < 2 ^ Suc (unat (computeInitialPending procs sz))"
proof -
  let ?z = "leading_zeros (leaves procs sz) 32"
  from numberOfLeadingZeros_spec [OF nz]
  have z: "?z \<le> 31" "2 ^ (31 - ?z) \<le> unat (leaves procs sz)" "unat (leaves procs sz) < 2 ^ (32 - ?z)"
    by simp_all
  have p: "unat (computeInitialPending procs sz) = 31 - ?z"
    using nz by (simp add: unat_computeInitialPending)
  show "2 ^ unat (computeInitialPending procs sz) \<le> unat (leaves procs sz)"
    using z p by simp
  have "Suc (31 - ?z) = 32 - ?z" using z by simp
  then show "unat (leaves procs sz) < 2 ^ Suc (unat (computeInitialPending procs sz))"
    using z p by simp
qed

lemma pow2_le_one: "2 ^ n \<le> (1::nat) \<Longrightarrow> n = 0"
proof (cases n)
  case 0
  then show ?thesis by simp
next
  case (Suc m)
  assume a: "2 ^ n \<le> (1::nat)"
  have "(1::nat) \<le> 2 ^ m" by simp
  then have "(2::nat) \<le> 2 ^ n" using Suc by simp
  with a show ?thesis by linarith
qed

lemma computeInitialPending_one_leaf:
  assumes "unat (leaves procs sz) \<le> 1"
  shows "computeInitialPending procs sz = 0"
proof (cases "leaves procs sz = 0")
  case True
  then show ?thesis by (simp add: computeInitialPending_def)
next
  case False
  from computeInitialPending_log2(1) [OF False] assms
  have "2 ^ unat (computeInitialPending procs sz) \<le> (1::nat)" by linarith
  then have "unat (computeInitialPending procs sz) = 0" by (rule pow2_le_one)
  then show ?thesis by (simp add: unat_eq_0)
qed

subsection \<open>A task tree whose sizes halve exactly\<close>

lemma nonneg_iff_unat: "0 \<le>s (w::jint) \<longleftrightarrow> unat w < 2 ^ 31"
proof
  assume a: "0 \<le>s w"
  have "sint w < 2 ^ (LENGTH(32) - 1)" by (rule sint_lt)
  then have "int (unat w) < 2 ^ 31" using sint_nonneg_unat [OF a] by simp
  then show "unat w < 2 ^ 31" by (metis of_nat_less_iff of_nat_numeral of_nat_power)
next
  assume a: "unat w < 2 ^ 31"
  then have "int (unat w) < 2 ^ 31" by (metis of_nat_less_iff of_nat_numeral of_nat_power)
  then have u: "uint w < 2 ^ 31" by simp
  have "sint w = signed_take_bit 31 (uint w)" by (simp add: sint_uint)
  also have "\<dots> = uint w"
  proof (rule signed_take_bit_int_eq_self)
    show "- (2 ^ 31) \<le> uint w" by (rule order_trans [of _ 0]) simp_all
    show "uint w < 2 ^ 31" using u by simp
  qed
  finally show "0 \<le>s w" by (simp add: word_sle_eq)
qed

lemma all_completed_map:
  "(\<And>x. x \<in> set xs \<Longrightarrow> \<exists>t. f x = Inr t \<and> res t = g x) \<Longrightarrow>
   \<exists>ts. all_completed (map f xs) = Inr ts \<and> map res ts = map g xs"
proof (induction xs)
  case Nil
  show ?case by simp
next
  case (Cons x xs)
  from Cons.prems [of x] obtain t where t: "f x = Inr t" "res t = g x" by auto
  from Cons.IH Cons.prems obtain ts where ts: "all_completed (map f xs) = Inr ts" "map res ts = map g xs"
    by auto
  show ?case using t ts by simp
qed

lemma fold_add_res:
  "fold (\<lambda>sub r. r + res sub) ts (r0::jlong) = r0 + sum_list (map res ts)"
  by (induction ts arbitrary: r0) (simp_all add: add.assoc)

lemma range_sum_split:
  "range_sum fnv arr q (a + b) = range_sum fnv arr q a + range_sum fnv arr (q + a) b"
proof -
  have "take (a + b) (drop q arr) = take a (drop q arr) @ take b (drop (q + a) arr)"
    by (simp add: take_add add.commute)
  then show ?thesis
    unfolding range_sum_def by (simp add: fold_leaf_step_shift [symmetric])
qed

lemma compute_eq:
  "compute fnv arr t =
     (case leaf fnv arr (pos t) (drop_bit (pending t) (size_cc t)) (res t) of
        Inl e \<Rightarrow> Inl e
      | Inr r \<Rightarrow> Inr (CustomCC (pos t) (drop_bit (pending t) (size_cc t)) (pending t) r
                     (rev (forked (pending t) (pos t) (size_cc t)))))"
proof -
  obtain x1 x2 where eq: "fork_loop (pending t) (pos t) (size_cc t) = (x1, x2)"
    by (cases "fork_loop (pending t) (pos t) (size_cc t)")
  then have "x1 = drop_bit (pending t) (size_cc t)"
    using fork_loop_size [of "pending t" "pos t" "size_cc t"] by simp
  moreover have "rev (forked (pending t) (pos t) (size_cc t)) = x2"
    by (simp add: forked_def eq)
  ultimately show ?thesis by (simp add: compute_def eq split: sum.splits)
qed

lemma unat_drop_bit_div: "unat (drop_bit k (sz::jint)) = unat sz div 2 ^ k"
  by (subst unat_drop_bit_eq) (rule drop_bit_eq_div)

lemma unat_add_fit:
  "unat (a::jint) + unat b < 2 ^ 31 \<Longrightarrow> unat (a + b) = unat a + unat b"
proof -
  assume "unat a + unat b < 2 ^ 31"
  then have "unat a + unat b < 2 ^ LENGTH(32)" by simp
  then show ?thesis by (simp only: unat_add_lem)
qed

lemma sum_forked:
  assumes len: "length arr < 2 ^ 31"
  shows "unat ps + unat sz \<le> length arr \<Longrightarrow> 2 ^ p dvd unat sz \<Longrightarrow>
    range_sum fnv arr (unat ps) (unat (drop_bit p sz))
      + sum_list (map (\<lambda>sub. range_sum fnv arr (unat (pos sub)) (unat (size_cc sub)))
          (forked p ps sz))
    = range_sum fnv arr (unat ps) (unat sz)"
proof (induction p arbitrary: sz)
  case 0
  show ?case by (simp add: forked_def)
next
  case (Suc p)
  let ?h = "drop_bit 1 sz"
  have h: "unat ?h = unat sz div 2" using unat_drop_bit_div [of 1 sz] by simp
  have ev: "2 dvd unat sz" using Suc.prems(2) by (metis dvd_trans dvd_triv_left power_Suc)
  then have n: "unat sz = unat ?h + unat ?h" using h by (auto elim: dvdE)
  have ex: "2 ^ p dvd unat ?h"
  proof -
    from Suc.prems(2) obtain c where c: "unat sz = 2 ^ Suc p * c" by (auto elim: dvdE)
    then have "unat sz div 2 = 2 ^ p * c" by simp
    then show ?thesis using h by simp
  qed
  have fit: "unat ps + unat ?h \<le> length arr" using Suc.prems(1) n by linarith
  have ph: "unat (ps + ?h) = unat ps + unat ?h"
    by (rule unat_add_fit) (use fit len in linarith)
  have dd: "drop_bit (Suc p) sz = drop_bit p ?h" by simp
  have ih: "range_sum fnv arr (unat ps) (unat (drop_bit p ?h))
      + sum_list (map (\<lambda>sub. range_sum fnv arr (unat (pos sub)) (unat (size_cc sub)))
          (forked p ps ?h))
    = range_sum fnv arr (unat ps) (unat ?h)"
    by (rule Suc.IH [OF fit ex])
  have "range_sum fnv arr (unat ps) (unat sz)
      = range_sum fnv arr (unat ps) (unat ?h) + range_sum fnv arr (unat ps + unat ?h) (unat ?h)"
    by (subst n) (rule range_sum_split)
  then show ?case
    unfolding dd forked_Suc using ih ph
    by (simp add: CustomCC_new_def add.assoc add.left_commute add.commute)
qed

lemma forked_members:
  "sub \<in> set (forked p ps sz) \<Longrightarrow>
    \<exists>k<p. sub = CustomCC (ps + drop_bit (Suc k) sz) (drop_bit (Suc k) sz) (p - Suc k) 0 []"
  by (auto simp: forked_eq CustomCC_new_def)

lemma exact_child:
  assumes ex: "2 ^ p dvd (n::nat)" and k: "k < p"
  shows "2 ^ (p - Suc k) dvd n div 2 ^ Suc k" and "n div 2 ^ Suc k + n div 2 ^ Suc k \<le> n"
proof -
  from ex obtain c where c: "n = 2 ^ p * c" by (auto elim: dvdE)
  have p: "p = Suc k + (p - Suc k)" using k by simp
  have "n = 2 ^ Suc k * (2 ^ (p - Suc k) * c)"
    by (subst c, subst p) (simp only: power_add mult.assoc)
  then have d: "n div 2 ^ Suc k = 2 ^ (p - Suc k) * c"
    by (metis nonzero_mult_div_cancel_left power_not_zero zero_neq_numeral)
  then show "2 ^ (p - Suc k) dvd n div 2 ^ Suc k" by simp
  have "2 * (n div 2 ^ Suc k) \<le> 2 ^ Suc k * (n div 2 ^ Suc k)" by simp
  also have "\<dots> \<le> n" by (rule times_div_less_eq_dividend)
  finally show "n div 2 ^ Suc k + n div 2 ^ Suc k \<le> n" by simp
qed

lemma run_exact:
  assumes len: "length arr < 2 ^ 31"
  shows "0 \<le>s ps \<Longrightarrow> 0 \<le>s sz \<Longrightarrow> unat ps + unat sz \<le> length arr \<Longrightarrow> 2 ^ p dvd unat sz \<Longrightarrow>
    \<exists>t. run fnv arr (CustomCC ps sz p 0 []) = Inr t
       \<and> res t = range_sum fnv arr (unat ps) (unat sz)"
proof (induction p arbitrary: ps sz rule: less_induct)
  case (less p)
  let ?g = "\<lambda>sub. range_sum fnv arr (unat (pos sub)) (unat (size_cc sub))"
  let ?lsz = "drop_bit p sz"
  have le: "unat ?lsz \<le> unat sz" by (simp add: unat_drop_bit_div)
  have sz31: "unat sz < 2 ^ 31" using less.prems(2) by (simp add: nonneg_iff_unat)
  have "unat ?lsz < 2 ^ 31" using le sz31 by linarith
  then have lsz: "0 \<le>s ?lsz" by (simp only: nonneg_iff_unat)
  have lf: "leaf fnv arr ps ?lsz 0 = Inr (range_sum fnv arr (unat ps) (unat ?lsz))"
    unfolding range_sum_def
    by (rule leaf_fold [OF len less.prems(1) lsz]) (use le less.prems(3) in linarith)
  have c: "compute fnv arr (CustomCC ps sz p 0 [])
      = Inr (CustomCC ps ?lsz p (range_sum fnv arr (unat ps) (unat ?lsz)) (rev (forked p ps sz)))"
    by (simp add: compute_eq lf)
  have child: "\<exists>t. run fnv arr sub = Inr t \<and> res t = ?g sub"
    if mem: "sub \<in> set (rev (forked p ps sz))" for sub
  proof -
    from mem have "sub \<in> set (forked p ps sz)" by simp
    then obtain k where k: "k < p"
      and sub: "sub = CustomCC (ps + drop_bit (Suc k) sz) (drop_bit (Suc k) sz) (p - Suc k) 0 []"
      using forked_members by blast
    let ?s = "drop_bit (Suc k) sz"
    have us: "unat ?s = unat sz div 2 ^ Suc k" by (rule unat_drop_bit_div)
    have ex: "2 ^ (p - Suc k) dvd unat ?s" and two: "unat ?s + unat ?s \<le> unat sz"
      using exact_child [OF less.prems(4) k] us by simp_all
    have fit1: "unat ps + unat ?s \<le> length arr" using two less.prems(3) by linarith
    have up: "unat (ps + ?s) = unat ps + unat ?s"
      by (rule unat_add_fit) (use fit1 len in linarith)
    have "unat ?s < 2 ^ 31" using two sz31 by linarith
    then have s0: "0 \<le>s ?s" by (simp only: nonneg_iff_unat)
    have "unat (ps + ?s) < 2 ^ 31" using up fit1 len by linarith
    then have p0: "0 \<le>s ps + ?s" by (simp only: nonneg_iff_unat)
    have fit2: "unat (ps + ?s) + unat ?s \<le> length arr" using up two less.prems(3) by linarith
    have "\<exists>t. run fnv arr (CustomCC (ps + ?s) ?s (p - Suc k) 0 []) = Inr t
        \<and> res t = range_sum fnv arr (unat (ps + ?s)) (unat ?s)"
      by (rule less.IH [OF _ p0 s0 fit2 ex]) (use k in simp)
    then show ?thesis by (simp add: sub)
  qed
  from all_completed_map [of "rev (forked p ps sz)" "run fnv arr" ?g, OF child]
  obtain ts where ts: "all_completed (map (run fnv arr) (rev (forked p ps sz))) = Inr ts"
    and rs: "map res ts = map ?g (rev (forked p ps sz))"
    by blast
  have r: "run fnv arr (CustomCC ps sz p 0 [])
      = Inr (onCompletion (CustomCC ps ?lsz p (range_sum fnv arr (unat ps) (unat ?lsz)) ts))"
    by (subst run.simps, simp only: c, simp add: ts)
  have "sum_list (map res ts) = sum_list (map ?g (forked p ps sz))"
    unfolding rs by (simp add: rev_map [symmetric] sum_list_rev)
  then have "res (onCompletion (CustomCC ps ?lsz p (range_sum fnv arr (unat ps) (unat ?lsz)) ts))
      = range_sum fnv arr (unat ps) (unat sz)"
    using sum_forked [OF len less.prems(3) less.prems(4), of fnv]
    by (simp add: onCompletion_def fold_add_res)
  with r show ?case by simp
qed

text \<open>
  When the pending count \<open>p\<close> of the root is such that \<open>2^p\<close> divides the length of the
  array, every halving is exact and the task tree returns what the sequential loop
  returns. The sizes of the post's benchmark (50 million elements on 40 processors, where
  \<open>p = 7\<close>) are of this kind.
\<close>

theorem invoke_exact_halving:
  assumes len: "length arr < 2 ^ 31"
    and ex: "2 ^ unat (computeInitialPending procs (array_length arr)) dvd length arr"
  shows "CustomCC_invoke fnv procs arr = Inr (sequential fnv arr)"
proof -
  let ?p = "unat (computeInitialPending procs (array_length arr))"
  have n: "unat (array_length arr) = length arr" using len by (rule unat_array_length)
  have "\<exists>t. run fnv arr (CustomCC 0 (array_length arr) ?p 0 []) = Inr t
      \<and> res t = range_sum fnv arr (unat (0::jint)) (unat (array_length arr))"
    by (rule run_exact [OF len _ array_length_nonneg [OF len]]) (simp_all add: n ex)
  then obtain t where t: "run fnv arr (CustomCC 0 (array_length arr) ?p 0 []) = Inr t"
    and r: "res t = range_sum fnv arr 0 (length arr)"
    using n by auto
  have "range_sum fnv arr 0 (length arr) = sequential fnv arr"
    by (simp add: range_sum_def sequential_def)
  then show ?thesis
    using t r by (simp add: CustomCC_invoke_def CustomCC_root_def CustomCC_new_def)
qed

subsection \<open>The claims on the splitter\<close>

text \<open>
  C3. For an array of \<open>N\<close> elements (any \<open>N\<close> a Java array can have) and a non-negative
  \<open>TARGET_LEAVES\<close>, \<open>leaves\<close> is \<open>min(TARGET_LEAVES, N div 10000)\<close> and
  \<open>computeInitialPending\<close> returns the floor of its binary logarithm: \<open>2^p \<le> leaves < 2^(p+1)\<close>
  when \<open>leaves\<close> is not zero. When \<open>leaves\<close> is 0 or 1 it returns 0; then the root's
  \<open>compute\<close> forks nothing, its leaf loop runs over the one range \<open>[0, N)\<close>, and the
  result is that of the sequential loop.
\<close>

theorem computeInitialPending_floor_log2:
  assumes len: "length arr < 2 ^ 31" and tl: "0 \<le>s TARGET_LEAVES procs"
  shows "sint (leaves procs (array_length arr))
           = min (sint (TARGET_LEAVES procs)) (int (length arr) div 10000)
    \<and> (leaves procs (array_length arr) \<noteq> 0 \<longrightarrow>
          2 ^ unat (computeInitialPending procs (array_length arr))
            \<le> sint (leaves procs (array_length arr))
          \<and> sint (leaves procs (array_length arr))
            < 2 ^ Suc (unat (computeInitialPending procs (array_length arr))))
    \<and> (sint (leaves procs (array_length arr)) \<le> 1 \<longrightarrow>
          computeInitialPending procs (array_length arr) = 0
          \<and> compute fnv arr (CustomCC_root procs arr)
              = Inr (CustomCC 0 (array_length arr) 0 (sequential fnv arr) [])
          \<and> leaf_ranges (CustomCC_root procs arr) = [(0, array_length arr)]
          \<and> CustomCC_invoke fnv procs arr = Inr (sequential fnv arr))"
proof -
  let ?N = "array_length arr"
  have N: "0 \<le>s ?N" using len by (rule array_length_nonneg)
  have lv: "sint (leaves procs ?N) = min (sint (TARGET_LEAVES procs)) (sint ?N div 10000)"
    and ge: "0 \<le> sint (leaves procs ?N)"
    using leaves_nonneg [OF N tl] by simp_all
  have "0 \<le>s leaves procs ?N" using ge by (simp add: word_sle_eq)
  then have su: "sint (leaves procs ?N) = int (unat (leaves procs ?N))"
    by (rule sint_nonneg_unat)
  have first: "sint (leaves procs ?N) = min (sint (TARGET_LEAVES procs)) (int (length arr) div 10000)"
    using lv sint_array_length [OF len] by simp
  have second: "2 ^ unat (computeInitialPending procs ?N) \<le> sint (leaves procs ?N)
      \<and> sint (leaves procs ?N) < 2 ^ Suc (unat (computeInitialPending procs ?N))"
    if nz: "leaves procs ?N \<noteq> 0"
  proof -
    have "int (2 ^ unat (computeInitialPending procs ?N)) \<le> int (unat (leaves procs ?N))"
      using computeInitialPending_log2(1) [OF nz] by (simp only: of_nat_le_iff)
    moreover have "int (unat (leaves procs ?N)) < int (2 ^ Suc (unat (computeInitialPending procs ?N)))"
      using computeInitialPending_log2(2) [OF nz] by (simp only: of_nat_less_iff)
    ultimately show ?thesis unfolding su by simp
  qed
  have third: "computeInitialPending procs ?N = 0
      \<and> compute fnv arr (CustomCC_root procs arr) = Inr (CustomCC 0 ?N 0 (sequential fnv arr) [])
      \<and> leaf_ranges (CustomCC_root procs arr) = [(0, ?N)]
      \<and> CustomCC_invoke fnv procs arr = Inr (sequential fnv arr)"
    if le1: "sint (leaves procs ?N) \<le> 1"
  proof -
    have "unat (leaves procs ?N) \<le> 1" using le1 su by linarith
    then have p0: "computeInitialPending procs ?N = 0" by (rule computeInitialPending_one_leaf)
    have root: "CustomCC_root procs arr = CustomCC 0 ?N 0 0 []"
      by (simp add: CustomCC_root_def CustomCC_new_def p0)
    have lf: "leaf fnv arr 0 ?N 0 = Inr (sequential fnv arr)" using len by (rule leaf_whole_array)
    have c: "compute fnv arr (CustomCC_root procs arr) = Inr (CustomCC 0 ?N 0 (sequential fnv arr) [])"
      by (simp add: root compute_def lf)
    have r: "run fnv arr (CustomCC_root procs arr) = Inr (CustomCC 0 ?N 0 (sequential fnv arr) [])"
      unfolding root using lf by (rule run_leaf_task)
    have lrs: "leaf_ranges (CustomCC 0 ?N 0 0 []) = [(0, ?N)]"
      by (subst leaf_ranges.simps) simp
    show ?thesis using p0 c r by (simp add: CustomCC_invoke_def root lrs)
  qed
  show ?thesis using first second third by blast
qed

theorem computeInitialPending_floor_log2_witness:
  "length (replicate 10000 (7::jint)) < 2 ^ 31 \<and> 0 \<le>s TARGET_LEAVES 1
   \<and> leaves 1 (array_length (replicate 10000 (7::jint))) = 1
   \<and> computeInitialPending 1 (array_length (replicate 10000 (7::jint))) = 0
   \<and> leaf_ranges (CustomCC_root 1 (replicate 10000 7)) = [(0, 10000)]
   \<and> CustomCC_invoke (\<lambda>e. 1) 1 (replicate 10000 7) = Inr 10000"
proof -
  have len: "length (replicate 10000 (7::jint)) < 2 ^ 31" by simp
  have tl: "0 \<le>s TARGET_LEAVES 1" by (simp add: TARGET_LEAVES_def word_sle_eq)
  have n: "array_length (replicate 10000 (7::jint)) = 10000" by (simp add: array_length_def)
  have lv: "leaves 1 (array_length (replicate 10000 (7::jint))) = 1"
    by (simp add: n leaves_def Math_min_def TARGET_LEAVES_def jdiv_def MIN_SIZE_PER_LEAF_def
        signed_divide_int_def word_sle_eq)
  have "fold (leaf_step (\<lambda>e. 1)) (replicate k (7::jint)) r = r + of_nat k" for k r
    by (induction k arbitrary: r)
      (simp_all add: leaf_step_def jrem_def word_sless_alt signed_modulo_int_def)
  then have s: "sequential (\<lambda>e. 1) (replicate 10000 (7::jint)) = 10000"
    by (simp add: sequential_def)
  show ?thesis
    using len tl lv s computeInitialPending_floor_log2 [OF len tl, of "\<lambda>e. 1"]
    by (simp add: n)
qed

text \<open>
  The fork loop in general. \<open>compute\<close> of a task with pending count \<open>p\<close> forks \<open>p\<close>
  tasks, with pending counts \<open>p - 1, \<dots>, 0\<close> in the order of the forks. Each fork
  halves the task's \<open>size\<close> with \<open>>>> 1\<close>; the forked task gets the halved size and starts
  where the task's kept front part now ends. After \<open>p\<close> forks the task's own size is the
  initial one halved \<open>p\<close> times.
\<close>

theorem compute_forks:
  "length (forked p ps sz) = p
   \<and> map pending (forked p ps sz) = rev [0..<p]
   \<and> forked (Suc p) ps sz
       = CustomCC_new (drop_bit 1 sz) (ps + drop_bit 1 sz) p # forked p ps (drop_bit 1 sz)
   \<and> forked p ps sz
       = map (\<lambda>k. CustomCC_new (drop_bit (Suc k) sz) (ps + drop_bit (Suc k) sz) (p - Suc k)) [0..<p]
   \<and> unat (drop_bit k sz) = unat sz div 2 ^ k
   \<and> 2 * unat (drop_bit 1 sz) \<le> unat sz
   \<and> unat sz \<le> 2 * unat (drop_bit 1 sz) + 1
   \<and> fst (fork_loop p ps sz) = drop_bit p sz
   \<and> snd (fork_loop p ps sz) = rev (forked p ps sz)
   \<and> compute fnv arr t =
       (case leaf fnv arr (pos t) (drop_bit (pending t) (size_cc t)) (res t) of
          Inl e \<Rightarrow> Inl e
        | Inr r \<Rightarrow> Inr (CustomCC (pos t) (drop_bit (pending t) (size_cc t)) (pending t) r
                       (rev (forked (pending t) (pos t) (size_cc t)))))"
proof -
  have pend: "map pending (forked p ps sz) = rev [0..<p]"
  proof (induction p arbitrary: sz)
    case 0
    show ?case by (simp add: forked_def)
  next
    case (Suc p)
    show ?case using Suc [of "drop_bit 1 sz"] by (simp add: forked_Suc CustomCC_new_def)
  qed
  have len: "length (forked p ps sz) = p" by (simp add: forked_eq)
  have cmp: "compute fnv arr t =
       (case leaf fnv arr (pos t) (drop_bit (pending t) (size_cc t)) (res t) of
          Inl e \<Rightarrow> Inl e
        | Inr r \<Rightarrow> Inr (CustomCC (pos t) (drop_bit (pending t) (size_cc t)) (pending t) r
                       (rev (forked (pending t) (pos t) (size_cc t)))))"
    by (rule compute_eq)
  have halves: "unat (drop_bit k sz) = unat sz div 2 ^ k"
    by (subst unat_drop_bit_eq) (rule drop_bit_eq_div)
  have step: "forked (Suc p) ps sz
       = CustomCC_new (drop_bit 1 sz) (ps + drop_bit 1 sz) p # forked p ps (drop_bit 1 sz)"
    by (rule forked_Suc)
  have all: "forked p ps sz
       = map (\<lambda>k. CustomCC_new (drop_bit (Suc k) sz) (ps + drop_bit (Suc k) sz) (p - Suc k)) [0..<p]"
    by (rule forked_eq)
  have half: "unat (drop_bit 1 sz) = unat sz div 2"
    by (subst unat_drop_bit_eq) (simp add: drop_bit_eq_div)
  have lower: "2 * unat (drop_bit 1 sz) \<le> unat sz" unfolding half by simp
  have upper: "unat sz \<le> 2 * unat (drop_bit 1 sz) + 1" unfolding half by arith
  have fin: "fst (fork_loop p ps sz) = drop_bit p sz" by (rule fork_loop_size)
  have slots: "snd (fork_loop p ps sz) = rev (forked p ps sz)" by (simp add: forked_def)
  show ?thesis by (intro conjI; fact)
qed

text \<open>
  C5. On an empty array, with a non-negative \<open>TARGET_LEAVES\<close>, the pending count is 0, the
  root forks no task, the guard of the leaf loop is false so that its body never runs, and
  the result is 0, the initial value of \<open>res\<close> and the result of the sequential loop.
\<close>

theorem empty_input:
  assumes tl: "0 \<le>s TARGET_LEAVES procs"
  shows "computeInitialPending procs (array_length ([] :: jint list)) = 0
    \<and> CustomCC_root procs [] = CustomCC 0 0 0 0 []
    \<and> forked (pending (CustomCC_root procs [])) 0 0 = []
    \<and> \<not> leaf_guard [] 0 0
    \<and> compute fnv [] (CustomCC_root procs []) = Inr (CustomCC 0 0 0 0 [])
    \<and> run fnv [] (CustomCC_root procs []) = Inr (CustomCC 0 0 0 0 [])
    \<and> CustomCC_invoke fnv procs [] = Inr 0
    \<and> sequential fnv [] = 0"
proof -
  have z: "array_length ([] :: jint list) = 0" by (simp add: array_length_def)
  have "leaves procs 0 = 0"
  proof -
    have "jdiv (0::jint) MIN_SIZE_PER_LEAF = 0" by (simp add: jdiv_def)
    moreover have "TARGET_LEAVES procs = 0" if "TARGET_LEAVES procs \<le>s 0"
    proof -
      have "sint (TARGET_LEAVES procs) = sint (0::jint)" using that tl by (simp add: word_sle_eq)
      then show ?thesis by (rule signed_word_eqI)
    qed
    ultimately show ?thesis by (auto simp: leaves_def Math_min_def)
  qed
  then have p0: "computeInitialPending procs 0 = 0"
    by (simp add: computeInitialPending_def)
  have root: "CustomCC_root procs [] = CustomCC 0 0 0 0 []"
    by (simp add: CustomCC_root_def CustomCC_new_def p0 z)
  have g: "\<not> leaf_guard [] 0 0" by (simp add: leaf_guard_def word_sless_alt)
  have c: "compute fnv [] (CustomCC_root procs []) = Inr (CustomCC 0 0 0 0 [])"
    by (simp add: root compute_def leaf_def g)
  have r: "run fnv [] (CustomCC_root procs []) = Inr (CustomCC 0 0 0 0 [])"
    unfolding root by (rule run_leaf_task) (simp add: leaf_def g)
  show ?thesis using p0 g c r
    by (simp add: CustomCC_invoke_def forked_def sequential_def z root)
qed

theorem empty_input_witness:
  "0 \<le>s TARGET_LEAVES 1
   \<and> computeInitialPending 1 (array_length ([] :: jint list)) = 0
   \<and> run (\<lambda>e. 1) [] (CustomCC_root 1 []) = Inr (CustomCC 0 0 0 0 [])
   \<and> CustomCC_invoke (\<lambda>e. 1) 1 [] = Inr 0"
proof -
  have tl: "0 \<le>s TARGET_LEAVES 1" by (simp add: TARGET_LEAVES_def word_sle_eq)
  show ?thesis using tl empty_input [OF tl, of "\<lambda>e. 1"] by blast
qed

subsection \<open>Odd sizes: the element the halving loses\<close>

lemma leaves_20001:
  assumes tl: "2 \<le>s TARGET_LEAVES procs"
  shows "leaves procs 20001 = 2"
proof -
  have d: "jdiv (20001::jint) MIN_SIZE_PER_LEAF = 2"
    by (simp add: jdiv_def MIN_SIZE_PER_LEAF_def signed_divide_int_def)
  have "TARGET_LEAVES procs = 2" if "TARGET_LEAVES procs \<le>s 2"
  proof -
    have "sint (TARGET_LEAVES procs) = sint (2::jint)" using that tl by (simp add: word_sle_eq)
    then show ?thesis by (rule signed_word_eqI)
  qed
  then show ?thesis by (auto simp: leaves_def Math_min_def d)
qed

lemma root_20001:
  assumes len: "length arr = 20001" and tl: "2 \<le>s TARGET_LEAVES procs"
  shows "CustomCC_root procs arr = CustomCC 0 20001 1 0 []"
proof -
  have n: "array_length arr = 20001" by (simp add: array_length_def len)
  have z: "leading_zeros 2 32 = 30" by code_simp
  have "unat (computeInitialPending procs 20001) = 1"
    by (simp add: unat_computeInitialPending leaves_20001 [OF tl] z)
  then show ?thesis by (simp add: CustomCC_root_def CustomCC_new_def n)
qed

lemma fork_loop_20001: "fork_loop 1 0 20001 = (10000, [CustomCC 10000 10000 0 0 []])"
proof -
  have "drop_bit (Suc 0) (20001::jint) = 10000" by (simp add: drop_bit_Suc)
  then show ?thesis by (simp add: CustomCC_new_def)
qed

lemma compute_20001:
  assumes len: "length arr = 20001"
  shows "compute fnv arr (CustomCC 0 20001 1 0 [])
      = Inr (CustomCC 0 10000 1 (sequential fnv (take 10000 arr)) [CustomCC 10000 10000 0 0 []])"
proof -
  have l31: "length arr < 2 ^ 31" using len by simp
  have "leaf fnv arr 0 10000 0 =
      Inr (fold (leaf_step fnv) (take (unat (10000::jint)) (drop (unat (0::jint)) arr)) 0)"
    by (rule leaf_fold [OF l31]) (simp_all add: len word_sle_eq)
  then have "leaf fnv arr 0 10000 0 = Inr (sequential fnv (take 10000 arr))"
    by (simp add: sequential_def)
  then show ?thesis using fork_loop_20001 by (simp add: compute_def)
qed

text \<open>
  C2 on an array of 20001 elements, for every processor count that gives at least two
  target leaves: one fork, and the leaf ranges are \<open>[0, 10000)\<close> and \<open>[10000, 20000)\<close>.
  Their lengths add up to 20000: index 20000 is in no range, because \<open>size >>>= 1\<close> turns
  20001 into 10000 and the forked task gets that same halved size.
\<close>

theorem leaf_ranges_20001:
  assumes len: "length arr = 20001" and tl: "2 \<le>s TARGET_LEAVES procs"
  shows "leaf_ranges (CustomCC_root procs arr) = [(0, 10000), (10000, 10000)]
    \<and> sum_list (map (\<lambda>(ps, sz). unat sz) (leaf_ranges (CustomCC_root procs arr))) = 20000
    \<and> \<not> (\<exists>(ps, sz) \<in> set (leaf_ranges (CustomCC_root procs arr)).
          unat ps \<le> 20000 \<and> 20000 < unat ps + unat sz)"
proof -
  have sub: "leaf_ranges (CustomCC 10000 10000 0 0 []) = [(10000, 10000)]"
    by (subst leaf_ranges.simps) simp
  have "leaf_ranges (CustomCC 0 20001 1 0 []) = [(0, 10000), (10000, 10000)]"
    by (subst leaf_ranges.simps) (simp add: fork_loop_20001 sub CustomCC_new_def)
  then have lr: "leaf_ranges (CustomCC_root procs arr) = [(0, 10000), (10000, 10000)]"
    by (simp only: root_20001 [OF len tl])
  show ?thesis unfolding lr by simp
qed

theorem leaf_ranges_20001_witness:
  "length (replicate 20001 (0::jint)) = 20001 \<and> 2 \<le>s TARGET_LEAVES 1
   \<and> leaf_ranges (CustomCC_root 1 (replicate 20001 0)) = [(0, 10000), (10000, 10000)]"
proof -
  have len: "length (replicate 20001 (0::jint)) = 20001" by simp
  have tl: "2 \<le>s TARGET_LEAVES 1" by (simp add: TARGET_LEAVES_def word_sle_eq)
  show ?thesis using len tl leaf_ranges_20001 [OF len tl] by simp
qed

text \<open>
  C4 on an array of 20001 elements. The root has pending count 1 and forks one task, with
  pending count 0; the fork halves \<open>size\<close> to 10000, the root keeps the front part
  \<open>[0, 10000)\<close> and its leaf loop adds up exactly these elements. The forked task gets
  \<open>[10000, 20000)\<close>, which ends before the root's range ended: it is not the back half
  \<open>[10000, 20001)\<close> of the range that was split.
\<close>

theorem compute_20001_back_half:
  assumes len: "length arr = 20001" and tl: "2 \<le>s TARGET_LEAVES procs"
  shows "pending (CustomCC_root procs arr) = 1
    \<and> forked (pending (CustomCC_root procs arr)) (pos (CustomCC_root procs arr))
          (size_cc (CustomCC_root procs arr)) = [CustomCC 10000 10000 0 0 []]
    \<and> compute fnv arr (CustomCC_root procs arr)
        = Inr (CustomCC 0 10000 1 (sequential fnv (take 10000 arr)) [CustomCC 10000 10000 0 0 []])
    \<and> unat (pos (CustomCC 10000 10000 0 0 [])) + unat (size_cc (CustomCC 10000 10000 0 0 []))
        < unat (pos (CustomCC_root procs arr)) + unat (size_cc (CustomCC_root procs arr))"
proof -
  have root: "CustomCC_root procs arr = CustomCC 0 20001 1 0 []" using len tl by (rule root_20001)
  have f: "forked 1 0 20001 = [CustomCC 10000 10000 0 0 []]"
    using fork_loop_20001 by (simp add: forked_def)
  show ?thesis unfolding root using f compute_20001 [OF len, of fnv] by simp
qed

theorem compute_20001_back_half_witness:
  "length (replicate 20000 (150::jint) @ [0]) = 20001 \<and> 2 \<le>s TARGET_LEAVES 1
   \<and> compute (\<lambda>e. 1) (replicate 20000 150 @ [0]) (CustomCC_root 1 (replicate 20000 150 @ [0]))
       = Inr (CustomCC 0 10000 1 0 [CustomCC 10000 10000 0 0 []])"
proof -
  have len: "length (replicate 20000 (150::jint) @ [0]) = 20001" by simp
  have tl: "2 \<le>s TARGET_LEAVES 1" by (simp add: TARGET_LEAVES_def word_sle_eq)
  have "fold (leaf_step (\<lambda>e. 1)) (replicate n (150::jint)) r = r" for n r
    by (induction n) (simp_all add: leaf_step_def word_sless_alt)
  then have front: "sequential (\<lambda>e. 1) (take 10000 (replicate 20000 (150::jint) @ [0])) = 0"
    by (simp add: sequential_def)
  show ?thesis
    using len tl compute_20001_back_half [OF len tl, of "\<lambda>e. 1"]
    by (simp only: front)
qed

text \<open>
  C1 on an array of 20001 elements: the task tree returns the sequential result of the
  first 20000 elements. The last element never reaches a leaf loop, so the result differs
  from the sequential loop's whenever that element adds something.
\<close>

theorem invoke_20001_drops_last:
  assumes len: "length arr = 20001" and tl: "2 \<le>s TARGET_LEAVES procs"
  shows "CustomCC_invoke fnv procs arr = Inr (sequential fnv (butlast arr))
    \<and> sequential fnv arr = leaf_step fnv (last arr) (sequential fnv (butlast arr))"
proof -
  have l31: "length arr < 2 ^ 31" using len by simp
  have front: "leaf fnv arr 0 10000 0 = Inr (fold (leaf_step fnv) (take 10000 arr) 0)"
  proof -
    have "leaf fnv arr 0 10000 0 =
        Inr (fold (leaf_step fnv) (take (unat (10000::jint)) (drop (unat (0::jint)) arr)) 0)"
      by (rule leaf_fold [OF l31]) (simp_all add: len word_sle_eq)
    then show ?thesis by simp
  qed
  have rear: "leaf fnv arr 10000 10000 0 = Inr (fold (leaf_step fnv) (take 10000 (drop 10000 arr)) 0)"
  proof -
    have "leaf fnv arr 10000 10000 0 =
        Inr (fold (leaf_step fnv) (take (unat (10000::jint)) (drop (unat (10000::jint)) arr)) 0)"
      by (rule leaf_fold [OF l31]) (simp_all add: len word_sle_eq)
    then show ?thesis by simp
  qed
  have sub: "run fnv arr (CustomCC 10000 10000 0 0 [])
      = Inr (CustomCC 10000 10000 0 (fold (leaf_step fnv) (take 10000 (drop 10000 arr)) 0) [])"
    using rear by (rule run_leaf_task)
  have c: "compute fnv arr (CustomCC 0 20001 1 0 [])
      = Inr (CustomCC 0 10000 1 (fold (leaf_step fnv) (take 10000 arr) 0) [CustomCC 10000 10000 0 0 []])"
    using fork_loop_20001 front by (simp add: compute_def)
  have r: "run fnv arr (CustomCC 0 20001 1 0 [])
      = Inr (CustomCC 0 10000 1
          (fold (leaf_step fnv) (take 10000 arr) 0 + fold (leaf_step fnv) (take 10000 (drop 10000 arr)) 0)
          [CustomCC 10000 10000 0 (fold (leaf_step fnv) (take 10000 (drop 10000 arr)) 0) []])"
    by (subst run.simps, simp only: c, simp add: sub onCompletion_def)
  have bl: "butlast arr = take 10000 arr @ take 10000 (drop 10000 arr)"
  proof -
    have "butlast arr = take 20000 arr" by (simp add: butlast_conv_take len)
    also have "\<dots> = take (10000 + 10000) arr" by simp
    also have "\<dots> = take 10000 arr @ take 10000 (drop 10000 arr)" by (rule take_add)
    finally show ?thesis .
  qed
  have seqb: "sequential fnv (butlast arr)
      = fold (leaf_step fnv) (take 10000 arr) 0 + fold (leaf_step fnv) (take 10000 (drop 10000 arr)) 0"
    unfolding sequential_def bl fold_append comp_def
    by (rule fold_leaf_step_shift)
  have ne: "arr \<noteq> []" using len by auto
  have "arr = butlast arr @ [last arr]" using ne by simp
  then have "sequential fnv arr = fold (leaf_step fnv) (butlast arr @ [last arr]) 0"
    by (simp add: sequential_def)
  then have seqa: "sequential fnv arr = leaf_step fnv (last arr) (sequential fnv (butlast arr))"
    by (simp add: sequential_def)
  show ?thesis using r seqb seqa
    by (simp add: CustomCC_invoke_def root_20001 [OF len tl])
qed

theorem invoke_20001_drops_last_witness:
  "length (replicate 20000 (150::jint) @ [0]) = 20001 \<and> 2 \<le>s TARGET_LEAVES 1
   \<and> CustomCC_invoke (\<lambda>e. 1) 1 (replicate 20000 150 @ [0]) = Inr 0
   \<and> sequential (\<lambda>e. 1) (replicate 20000 150 @ [0]) = 1"
proof -
  have len: "length (replicate 20000 (150::jint) @ [0]) = 20001" by simp
  have tl: "2 \<le>s TARGET_LEAVES 1" by (simp add: TARGET_LEAVES_def word_sle_eq)
  have "fold (leaf_step (\<lambda>e. 1)) (replicate n (150::jint)) r = r" for n r
    by (induction n) (simp_all add: leaf_step_def word_sless_alt)
  then have front: "sequential (\<lambda>e. 1) (replicate 20000 (150::jint)) = 0"
    by (simp add: sequential_def)
  have last: "leaf_step (\<lambda>e. 1) (0::jint) 0 = 1"
    by (simp add: leaf_step_def jrem_def word_sless_alt signed_modulo_int_def)
  show ?thesis
    using len tl front last
      invoke_20001_drops_last [OF len tl, of "\<lambda>e. 1"]
    by simp
qed


section \<open>Properties of the collector patch\<close>

lemma ucast_long_int_in_range:
  "0 \<le>s (sz::jlong) \<Longrightarrow> sz \<le>s 2147483647 \<Longrightarrow> sint (ucast sz :: jint) = sint sz"
proof -
  assume a: "0 \<le>s sz" and b: "sz \<le>s 2147483647"
  from a have ge: "0 \<le> sint sz" by (simp add: word_sle_eq)
  from b have le: "sint sz \<le> 2147483647" by (simp add: word_sle_eq)
  have u: "uint sz = sint sz" using ge le
    by (simp add: uint_sint take_bit_int_eq_self)
  have "sint (ucast sz :: jint) = signed_take_bit 31 (uint sz)"
    by (simp add: sint_uint signed_take_bit_take_bit unsigned_ucast_eq)
  then show ?thesis using ge le u by (simp add: signed_take_bit_int_eq_self)
qed

lemma ucast_negative: "bit (sz::jlong) 31 \<Longrightarrow> (ucast sz :: jint) <s 0"
proof -
  assume "bit sz 31"
  then have "bit (ucast sz :: jint) (LENGTH(32) - Suc 0)" by (simp add: bit_ucast_iff)
  then have "sint (ucast sz :: jint) < 0" by (simp only: bit_last_iff)
  then show ?thesis by (simp add: word_sless_alt)
qed

lemma sint_ucast_long_int: "sint (ucast (sz::jlong) :: jint) = signed_take_bit 31 (sint sz)"
proof -
  have "sint (ucast sz :: jint) = signed_take_bit 31 (uint sz)"
    by (simp add: sint_uint signed_take_bit_take_bit unsigned_ucast_eq)
  also have "\<dots> = signed_take_bit 31 (take_bit 64 (sint sz))" by (simp add: uint_sint)
  also have "\<dots> = signed_take_bit 31 (sint sz)" by (simp add: signed_take_bit_take_bit)
  finally show ?thesis .
qed

text \<open>
  C6, as the spec states it: with a known exact size \<open>N\<close> the shared container is created
  by \<open>sizedSupplier\<close> applied to \<open>N\<close>. On the code the capacity is \<open>(int) N\<close>: a concurrent
  collector whose sized supplier returns the capacity it was given, in an unordered
  parallel stream of \<open>2^32 + 7\<close> elements, is asked for capacity 7.
\<close>

theorem evaluateParallel_capacity_counterexample:
  "collect_terminalOp True True
      (CollectorImpl (\<lambda>n. Inr (sint n)) (\<lambda>u. Inr 0) (\<lambda>a t. a) (\<lambda>a b. a) (\<lambda>a. a)
        {CONCURRENT, UNORDERED, IDENTITY_FINISH} :: (unit, int, int) Collector)
     = UnorderedConcurrentCollectorOp
      (CollectorImpl (\<lambda>n. Inr (sint n)) (\<lambda>u. Inr 0) (\<lambda>a t. a) (\<lambda>a b. a) (\<lambda>a. a)
        {CONCURRENT, UNORDERED, IDENTITY_FINISH})
   \<and> UnorderedConcurrentCollectorOp_evaluateParallel
      (CollectorImpl (\<lambda>n. Inr (sint n)) (\<lambda>u. Inr 0) (\<lambda>a t. a) (\<lambda>a b. a) (\<lambda>a. a)
        {CONCURRENT, UNORDERED, IDENTITY_FINISH} :: (unit, int, int) Collector) 4294967303 []
     = Inr 7
   \<and> UnorderedConcurrentCollectorOp_evaluateParallel
      (CollectorImpl (\<lambda>n. Inr (sint n)) (\<lambda>u. Inr 0) (\<lambda>a t. a) (\<lambda>a b. a) (\<lambda>a. a)
        {CONCURRENT, UNORDERED, IDENTITY_FINISH} :: (unit, int, int) Collector) 4294967303 []
     \<noteq> Inr (sint (4294967303 :: jlong))"
  by (simp add: collect_terminalOp_def UnorderedConcurrentCollectorOp_evaluateParallel_def
      CollectorImpl_def)

text \<open>
  C6, amended. \<open>collect\<close> evaluates with \<open>UnorderedConcurrentCollectorOp\<close> if and only if the stream
  is parallel, the collector is \<open>CONCURRENT\<close>, and the stream is unordered or the
  collector is \<open>UNORDERED\<close>; in every other case it evaluates with \<open>ReduceOps.makeRef\<close>.
  \<open>UnorderedConcurrentCollectorOp.evaluateParallel\<close> creates its one container with
  \<open>sizedSupplier\<close> applied to the exact size when that is known (not \<open>-1\<close>) and with
  \<open>supplier\<close> otherwise; the size reaches \<open>sizedSupplier\<close> through the cast \<open>(int) size\<close>,
  so the capacity is the size reduced to its low 32 bits, read as a signed number: the
  size itself when it fits an \<open>int\<close>, another number (possibly negative) when it does not.
  Every element is then accumulated into that container, and the combiner plays no part
  in the result.
\<close>

theorem collect_strategy:
  "sint (ucast sz :: jint) = signed_take_bit 31 (sint sz)
   \<and> (collect_terminalOp isParallel isOrdered c = UnorderedConcurrentCollectorOp c \<longleftrightarrow>
      isParallel \<and> CONCURRENT \<in> characteristics c
      \<and> (\<not> isOrdered \<or> UNORDERED \<in> characteristics c))
   \<and> (collect_terminalOp isParallel isOrdered c = ReduceOps_makeRef c \<longleftrightarrow>
      \<not> (isParallel \<and> CONCURRENT \<in> characteristics c
      \<and> (\<not> isOrdered \<or> UNORDERED \<in> characteristics c)))
   \<and> (sz \<noteq> - 1 \<longrightarrow>
        UnorderedConcurrentCollectorOp_evaluateParallel c sz [] = sizedSupplier c (ucast sz))
   \<and> (0 \<le>s sz \<and> sz \<le>s 2147483647 \<longrightarrow> sint (ucast sz :: jint) = sint sz)
   \<and> UnorderedConcurrentCollectorOp_evaluateParallel c (- 1) [] = supplier c ()
   \<and> UnorderedConcurrentCollectorOp_evaluateParallel c sz delivered =
        (case UnorderedConcurrentCollectorOp_evaluateParallel c sz [] of
           Inl e \<Rightarrow> Inl e
         | Inr res0 \<Rightarrow> Inr (fold (\<lambda>t r. accumulator c r t) delivered res0))
   \<and> UnorderedConcurrentCollectorOp_evaluateParallel (c\<lparr>combiner := f\<rparr>) sz delivered =
        UnorderedConcurrentCollectorOp_evaluateParallel c sz delivered"
proof (rule conjI)
  show "sint (ucast sz :: jint) = signed_take_bit 31 (sint sz)" by (rule sint_ucast_long_int)
  show "(collect_terminalOp isParallel isOrdered c = UnorderedConcurrentCollectorOp c \<longleftrightarrow>
      isParallel \<and> CONCURRENT \<in> characteristics c
      \<and> (\<not> isOrdered \<or> UNORDERED \<in> characteristics c))
   \<and> (collect_terminalOp isParallel isOrdered c = ReduceOps_makeRef c \<longleftrightarrow>
      \<not> (isParallel \<and> CONCURRENT \<in> characteristics c
      \<and> (\<not> isOrdered \<or> UNORDERED \<in> characteristics c)))
   \<and> (sz \<noteq> - 1 \<longrightarrow>
        UnorderedConcurrentCollectorOp_evaluateParallel c sz [] = sizedSupplier c (ucast sz))
   \<and> (0 \<le>s sz \<and> sz \<le>s 2147483647 \<longrightarrow> sint (ucast sz :: jint) = sint sz)
   \<and> UnorderedConcurrentCollectorOp_evaluateParallel c (- 1) [] = supplier c ()
   \<and> UnorderedConcurrentCollectorOp_evaluateParallel c sz delivered =
        (case UnorderedConcurrentCollectorOp_evaluateParallel c sz [] of
           Inl e \<Rightarrow> Inl e
         | Inr res0 \<Rightarrow> Inr (fold (\<lambda>t r. accumulator c r t) delivered res0))
   \<and> UnorderedConcurrentCollectorOp_evaluateParallel (c\<lparr>combiner := f\<rparr>) sz delivered =
        UnorderedConcurrentCollectorOp_evaluateParallel c sz delivered"
    by (auto simp: collect_terminalOp_def UnorderedConcurrentCollectorOp_evaluateParallel_def
        ucast_long_int_in_range split: sum.splits)
qed

theorem collect_strategy_witness:
  "(3 :: jlong) \<noteq> - 1 \<and> 0 \<le>s (3 :: jlong) \<and> (3 :: jlong) \<le>s 2147483647
   \<and> collect_terminalOp True False
        (CollectorImpl ArrayList_new_capacity ArrayList_new (\<lambda>l t. l @ [t]) (\<lambda>l r. l @ r)
           (\<lambda>l. l) {CONCURRENT, IDENTITY_FINISH} :: (nat, nat list, nat list) Collector)
      = UnorderedConcurrentCollectorOp
        (CollectorImpl ArrayList_new_capacity ArrayList_new (\<lambda>l t. l @ [t]) (\<lambda>l r. l @ r)
           (\<lambda>l. l) {CONCURRENT, IDENTITY_FINISH})
   \<and> UnorderedConcurrentCollectorOp_evaluateParallel
        (CollectorImpl ArrayList_new_capacity ArrayList_new (\<lambda>l t. l @ [t]) (\<lambda>l r. l @ r)
           (\<lambda>l. l) {CONCURRENT, IDENTITY_FINISH} :: (nat, nat list, nat list) Collector)
        3 [7, 8, 9]
      = Inr [7, 8, 9]
   \<and> sint (ucast (3 :: jlong) :: jint) = 3"
  using collect_strategy [where isParallel = True and isOrdered = False
      and c = "CollectorImpl ArrayList_new_capacity ArrayList_new (\<lambda>l t. l @ [t]) (\<lambda>l r. l @ r)
         (\<lambda>l. l) {CONCURRENT, IDENTITY_FINISH} :: (nat, nat list, nat list) Collector"
      and sz = 3 and delivered = "[7, 8, 9]"]
  by (simp add: CollectorImpl_def ArrayList_new_capacity_def ArrayList_new_def word_sless_alt word_sle_eq)

text \<open>
  C7, as the spec states it: for every count other than \<open>-1\<close> the container is created by
  \<open>sizedSupplier\<close> applied to the count. On the code the capacity is \<open>(int) count\<close>: a
  collector whose sized supplier returns the capacity it was given is asked, for a count of
  \<open>2^32 + 5\<close>, for capacity 5.
\<close>

theorem ReducingSink_begin_capacity_counterexample:
  "ReducingSink_begin
      (CollectorImpl (\<lambda>n. Inr (sint n)) (\<lambda>u. Inr 0) (\<lambda>a t. a) (\<lambda>a b. a) (\<lambda>a. a) {}
        :: (unit, int, int) Collector) 4294967301
     = Inr 5
   \<and> ReducingSink_begin
      (CollectorImpl (\<lambda>n. Inr (sint n)) (\<lambda>u. Inr 0) (\<lambda>a t. a) (\<lambda>a b. a) (\<lambda>a. a) {}
        :: (unit, int, int) Collector) 4294967301
     \<noteq> Inr (sint (4294967301 :: jlong))"
  by (simp add: ReducingSink_begin_def CollectorImpl_def)

text \<open>
  C7, amended. \<open>ReducingSink.begin\<close> creates the container with \<open>supplier\<close> when the size
  is \<open>-1\<close> and with \<open>sizedSupplier\<close>, applied to the size cast to \<open>int\<close>, for every other
  size. The capacity is the size reduced to its low 32 bits, read as a signed number: the
  size itself when it fits an \<open>int\<close>, another number (possibly negative) when it does not.
  \<open>-1\<close> is the only size for which the container is the supplier's whatever the collector.
\<close>

theorem ReducingSink_begin_factory:
  "ReducingSink_begin c (- 1) = supplier c ()
   \<and> (sz \<noteq> - 1 \<longrightarrow> ReducingSink_begin c sz = sizedSupplier c (ucast sz))
   \<and> sint (ucast sz :: jint) = signed_take_bit 31 (sint sz)
   \<and> (0 \<le>s sz \<and> sz \<le>s 2147483647 \<longrightarrow> sint (ucast sz :: jint) = sint sz)
   \<and> ((\<forall>d :: (unit, bool, bool) Collector. ReducingSink_begin d sz = supplier d ())
        \<longleftrightarrow> sz = - 1)"
proof -
  let ?d = "CollectorImpl (\<lambda>n. Inr True) (\<lambda>u. Inr False) (\<lambda>a t. a) (\<lambda>a b. a) (\<lambda>a. a) {}
    :: (unit, bool, bool) Collector"
  have "\<exists>d :: (unit, bool, bool) Collector. ReducingSink_begin d sz \<noteq> supplier d ()"
    if "sz \<noteq> - 1"
  proof
    show "ReducingSink_begin ?d sz \<noteq> supplier ?d ()"
      using that by (simp add: ReducingSink_begin_def CollectorImpl_def)
  qed
  then show ?thesis
    using sint_ucast_long_int [of sz]
    by (auto simp: ReducingSink_begin_def ucast_long_int_in_range)
qed

theorem ReducingSink_begin_factory_witness:
  "(4 :: jlong) \<noteq> - 1 \<and> 0 \<le>s (4 :: jlong) \<and> (4 :: jlong) \<le>s 2147483647
   \<and> ReducingSink_begin (toList :: (nat, nat list, nat list) Collector) 4
      = ArrayList_new_capacity 4
   \<and> sint (ucast (4 :: jlong) :: jint) = 4"
  using ReducingSink_begin_factory [of "toList :: (nat, nat list, nat list) Collector" 4]
  by (simp add: toList_def CollectorImpl_sized_identity_def CollectorImpl_def word_sle_eq)

text \<open>
  C8, as the spec states it: a capacity that \<open>sizedSupplier\<close> rejects makes the reduction
  fall back to \<open>supplier\<close>. On the code it does not: for a stream of \<open>2^31\<close> elements of
  known size the cast gives \<open>toList\<close> the capacity \<open>-2^31\<close>, and \<open>begin\<close> ends with the
  IllegalArgumentException of \<open>new ArrayList(-2147483648)\<close>, although \<open>supplier\<close> would have
  returned a list.
\<close>

theorem ReducingSink_begin_no_fallback_counterexample:
  "ReducingSink_begin (toList :: (nat, nat list, nat list) Collector) 2147483648
     = Inl IllegalArgumentException
   \<and> supplier (toList :: (nat, nat list, nat list) Collector) () = Inr []"
  by (simp add: ReducingSink_begin_def toList_def CollectorImpl_sized_identity_def
      CollectorImpl_def ArrayList_new_capacity_def ArrayList_new_def word_sless_alt)

text \<open>
  C8, amended: neither \<open>ReducingSink.begin\<close> nor
  \<open>UnorderedConcurrentCollectorOp.evaluateParallel\<close> recovers from a failing capacity
  request. For every size other than \<open>-1\<close>, an exception thrown by \<open>sizedSupplier\<close> on the
  size cast to \<open>int\<close> is the outcome of the call; \<open>supplier\<close> is not tried. With
  \<open>toList\<close> this is the outcome for every such size whose bit 31 is set, the sizes the
  cast makes negative, although its \<open>supplier\<close> returns a list.
\<close>

theorem sizedSupplier_failure_propagates:
  "(sz \<noteq> - 1 \<longrightarrow> sizedSupplier c (ucast sz) = Inl e \<longrightarrow>
      ReducingSink_begin c sz = Inl e
      \<and> UnorderedConcurrentCollectorOp_evaluateParallel c sz delivered = Inl e)
   \<and> (sz' \<noteq> - 1 \<longrightarrow> bit sz' 31 \<longrightarrow>
      ReducingSink_begin (toList :: ('t, 't list, 't list) Collector) sz'
        = Inl IllegalArgumentException
      \<and> supplier (toList :: ('t, 't list, 't list) Collector) () = Inr [])"
proof -
  have "ReducingSink_begin (toList :: ('t, 't list, 't list) Collector) sz'
      = Inl IllegalArgumentException"
    if "sz' \<noteq> - 1" "bit sz' 31"
    using that ucast_negative [of sz']
    by (simp add: ReducingSink_begin_def toList_def CollectorImpl_sized_identity_def
        CollectorImpl_def ArrayList_new_capacity_def)
  moreover have "supplier (toList :: ('t, 't list, 't list) Collector) () = Inr []"
    by (simp add: toList_def CollectorImpl_sized_identity_def CollectorImpl_def ArrayList_new_def)
  ultimately show ?thesis
    by (simp add: ReducingSink_begin_def UnorderedConcurrentCollectorOp_evaluateParallel_def)
qed

theorem sizedSupplier_failure_propagates_witness:
  "(4294967295 :: jlong) \<noteq> - 1 \<and> bit (4294967295 :: jlong) 31
   \<and> sizedSupplier (toList :: (nat, nat list, nat list) Collector) (ucast (4294967295 :: jlong))
       = Inl IllegalArgumentException
   \<and> ReducingSink_begin (toList :: (nat, nat list, nat list) Collector) 4294967295
       = Inl IllegalArgumentException
   \<and> UnorderedConcurrentCollectorOp_evaluateParallel
        (toList :: (nat, nat list, nat list) Collector) 4294967295 [1, 2]
       = Inl IllegalArgumentException"
proof -
  have ne: "(4294967295 :: jlong) \<noteq> - 1" by simp
  have b: "bit (4294967295 :: jlong) 31" by (simp add: bit_iff_odd)
  have fails: "sizedSupplier (toList :: (nat, nat list, nat list) Collector)
      (ucast (4294967295 :: jlong)) = Inl IllegalArgumentException"
    by (simp add: toList_def CollectorImpl_sized_identity_def CollectorImpl_def
        ArrayList_new_capacity_def word_sless_alt)
  show ?thesis
    using ne b fails
      sizedSupplier_failure_propagates [of 4294967295
        "toList :: (nat, nat list, nat list) Collector" IllegalArgumentException "[1, 2]" 4294967295]
    by blast
qed

text \<open>
  C10. A collector that was given no sized supplier ignores the capacity: the default
  method \<open>Collector.sizedSupplier\<close>, the supplier-only constructor of \<open>CollectorImpl\<close> and
  the two supplier-only overloads of \<open>Collector.of\<close> each yield a sized supplier that
  returns, for every capacity, what the supplier returns.
\<close>

theorem sizedSupplier_ignores_capacity:
  "(\<forall>n. Collector_sizedSupplier_default supl n = supl ())
   \<and> supplier (CollectorImpl_supplier supl acc comb fin cs) = supl
   \<and> (\<forall>n. sizedSupplier (CollectorImpl_supplier supl acc comb fin cs) n = supl ())
   \<and> (\<exists>c. Collector_of (Some supl) (Some acc) (Some comb) (Some chs) = Inr c
          \<and> supplier c = supl \<and> (\<forall>n. sizedSupplier c n = supl ()))
   \<and> (\<exists>c. Collector_of_finisher (Some supl) (Some acc) (Some comb) (Some fin) (Some chs) = Inr c
          \<and> supplier c = supl \<and> (\<forall>n. sizedSupplier c n = supl ()))"
  by (simp add: Collector_sizedSupplier_default_def CollectorImpl_supplier_def CollectorImpl_def
      Collector_of_def Collector_of_finisher_def Collector_of_sized_def
      Collector_of_sized_finisher_def CollectorImpl_sized_identity_def ignored_supplier_get_def)

end
